theory Spec2Isabelle
  imports Main
begin

section \<open>Texts and the Python string primitives the scripts use\<close>

text \<open>
  A text is a \<^typ>\<open>string\<close>: a list of characters, read as a Python \<open>str\<close> whose code
  points are all below 128. The character classes below are Python's on that range
  (\<open>str.isspace\<close>, the \<open>\w\<close> and \<open>\s\<close> classes of \<open>re\<close>, \<open>str.upper\<close>);
  a character of code 128 or more is treated as an opaque symbol (no whitespace, no word
  character, no case). The right single quotation mark U+2019 that the name pattern of
  the scripts also accepts lies outside that range.
\<close>

abbreviation NL :: char where "NL \<equiv> CHR 0x0A"
abbreviation CR :: char where "CR \<equiv> CHR 0x0D"
abbreviation TAB :: char where "TAB \<equiv> CHR 0x09"
abbreviation SPC :: char where "SPC \<equiv> CHR 0x20"

definition lower_chars :: string where
  "lower_chars = ''abcdefghijklmnopqrstuvwxyz''"

definition upper_chars :: string where
  "upper_chars = ''ABCDEFGHIJKLMNOPQRSTUVWXYZ''"

definition digit_chars :: string where
  "digit_chars = ''0123456789''"

definition is_space :: "char \<Rightarrow> bool" where
  "is_space c \<longleftrightarrow> c \<in> set [TAB, NL, CHR 0x0B, CHR 0x0C, CR,
      CHR 0x1C, CHR 0x1D, CHR 0x1E, CHR 0x1F, SPC]"

definition is_lower :: "char \<Rightarrow> bool" where
  "is_lower c \<longleftrightarrow> c \<in> set lower_chars"

definition is_upper :: "char \<Rightarrow> bool" where
  "is_upper c \<longleftrightarrow> c \<in> set upper_chars"

definition is_digit :: "char \<Rightarrow> bool" where
  "is_digit c \<longleftrightarrow> c \<in> set digit_chars"

text \<open>The class \<open>\w\<close>: letters, digits and the underscore.\<close>

definition is_word :: "char \<Rightarrow> bool" where
  "is_word c \<longleftrightarrow> is_lower c \<or> is_upper c \<or> is_digit c \<or> c = CHR ''_''"

definition upper_char :: "char \<Rightarrow> char" where
  "upper_char c = (case map_of (zip lower_chars upper_chars) c of Some u \<Rightarrow> u | None \<Rightarrow> c)"

definition lower_char :: "char \<Rightarrow> char" where
  "lower_char c = (case map_of (zip upper_chars lower_chars) c of Some l \<Rightarrow> l | None \<Rightarrow> c)"

text \<open>\<open>str.upper\<close>.\<close>

definition upper :: "string \<Rightarrow> string" where
  "upper s = map upper_char s"

text \<open>\<open>str.lstrip()\<close>, \<open>str.rstrip()\<close> and \<open>str.strip()\<close> without argument.\<close>

definition lstrip :: "string \<Rightarrow> string" where
  "lstrip s = dropWhile is_space s"

definition rstrip :: "string \<Rightarrow> string" where
  "rstrip s = rev (dropWhile is_space (rev s))"

definition strip :: "string \<Rightarrow> string" where
  "strip s = rstrip (lstrip s)"

text \<open>\<open>s.split(d)\<close> for a one-character separator: never the empty list.\<close>

fun split_chr :: "char \<Rightarrow> string \<Rightarrow> string list" where
  "split_chr d [] = [[]]"
| "split_chr d (c # cs) =
     (if c = d then [] # split_chr d cs
      else (case split_chr d cs of x # xs \<Rightarrow> (c # x) # xs | [] \<Rightarrow> [[c]]))"

text \<open>\<open>sep.join(xs)\<close>.\<close>

fun join :: "string \<Rightarrow> string list \<Rightarrow> string" where
  "join sep [] = []"
| "join sep [x] = x"
| "join sep (x # y # ys) = x @ sep @ join sep (y # ys)"

text \<open>Python's slice \<open>s[a:b]\<close> for \<open>0 \<le> a\<close> and \<open>0 \<le> b\<close>.\<close>

definition slice :: "string \<Rightarrow> nat \<Rightarrow> nat \<Rightarrow> string" where
  "slice s a b = take (b - a) (drop a s)"

text \<open>
  \<open>str.title()\<close>: a letter is uppercased when the character before it is not a letter and
  lowercased otherwise.
\<close>

fun title_from :: "bool \<Rightarrow> string \<Rightarrow> string" where
  "title_from prev [] = []"
| "title_from prev (c # cs) =
     (if is_lower c \<or> is_upper c
      then (if prev then lower_char c else upper_char c) # title_from True cs
      else c # title_from False cs)"

definition title :: "string \<Rightarrow> string" where
  "title s = title_from False s"

section \<open>The regular expressions, as scanners\<close>

subsection \<open>\<open>SPEAKER_RE = \[([^\]]+)\]\<close>\<close>

text \<open>
  A match at the head of \<open>s\<close>: an opening bracket, one or more characters other than the
  closing bracket (greedy, so all of them up to the first closing bracket), then the
  closing bracket. The result is group 1 and the text after the match.
\<close>

definition speaker_match :: "string \<Rightarrow> (string \<times> string) option" where
  "speaker_match s =
     (case s of [] \<Rightarrow> None
      | c # cs \<Rightarrow>
          if c \<noteq> CHR ''['' then None
          else (let inner = takeWhile (\<lambda>x. x \<noteq> CHR '']'') cs;
                    rest = dropWhile (\<lambda>x. x \<noteq> CHR '']'') cs
                in if inner = [] \<or> rest = [] then None else Some (inner, tl rest)))"

record smatch =
  m_start :: nat
  m_end :: nat
  m_group1 :: string

text \<open>
  \<open>SPEAKER_RE.finditer\<close> on the rest \<open>s\<close> of a text, \<open>pos\<close> being the offset of \<open>s\<close> in it:
  leftmost matches, not overlapping, the search resuming where a match ended.
\<close>

function finditer_from :: "nat \<Rightarrow> string \<Rightarrow> smatch list" where
  "finditer_from pos [] = []"
| "finditer_from pos (c # cs) =
     (case speaker_match (c # cs) of
        Some (inner, rest) \<Rightarrow>
          \<lparr>m_start = pos, m_end = pos + length inner + 2, m_group1 = inner\<rparr>
            # finditer_from (pos + length inner + 2) rest
      | None \<Rightarrow> finditer_from (pos + 1) cs)"
  by pat_completeness auto
termination
proof (relation "measure (\<lambda>(pos, s). length s)", goal_cases)
  case 1
  show ?case by simp
next
  case (2 pos c cs)
  show ?case by simp
next
  case (3 pos c cs x2 inner rest)
  then have "rest = tl (dropWhile (\<lambda>x. x \<noteq> CHR '']'') cs)"
    by (auto simp: speaker_match_def Let_def split: if_splits)
  moreover have "length (dropWhile (\<lambda>x. x \<noteq> CHR '']'') cs) \<le> length cs"
    by (rule length_dropWhile_le)
  ultimately show ?case by simp
qed

definition finditer :: "string \<Rightarrow> smatch list" where
  "finditer text = finditer_from 0 text"

text \<open>\<open>SPEAKER_RE.sub(repl, text)\<close> where \<open>repl\<close> puts \<open>f\<close> of group 1 into brackets.\<close>

function sub_speaker :: "(string \<Rightarrow> string) \<Rightarrow> string \<Rightarrow> string" where
  "sub_speaker f [] = []"
| "sub_speaker f (c # cs) =
     (case speaker_match (c # cs) of
        Some (inner, rest) \<Rightarrow> ''['' @ f inner @ '']'' @ sub_speaker f rest
      | None \<Rightarrow> c # sub_speaker f cs)"
  by pat_completeness auto
termination
proof (relation "measure (\<lambda>(f, s). length s)", goal_cases)
  case 1
  show ?case by simp
next
  case (2 f c cs)
  show ?case by simp
next
  case (3 f c cs x2 inner rest)
  then have "rest = tl (dropWhile (\<lambda>x. x \<noteq> CHR '']'') cs)"
    by (auto simp: speaker_match_def Let_def split: if_splits)
  moreover have "length (dropWhile (\<lambda>x. x \<noteq> CHR '']'') cs) \<le> length cs"
    by (rule length_dropWhile_le)
  ultimately show ?case by simp
qed

subsection \<open>The separators: \<open>[,/\\&]|\band\b\<close>, ignoring case\<close>

text \<open>
  \<open>and_at pw s\<close>: the word "and", in any case, matches at the head of \<open>s\<close> between two word
  boundaries; \<open>pw\<close> says whether the character before \<open>s\<close> is a word character.
\<close>

definition and_at :: "bool \<Rightarrow> string \<Rightarrow> bool" where
  "and_at pw s \<longleftrightarrow> \<not> pw \<and> map lower_char (take 3 s) = ''and''
     \<and> (case drop 3 s of [] \<Rightarrow> True | d # _ \<Rightarrow> \<not> is_word d)"

definition is_sep_char :: "char \<Rightarrow> bool" where
  "is_sep_char c \<longleftrightarrow> c \<in> set [CHR '','', CHR ''/'', CHR 0x5C, CHR ''&'']"

text \<open>\<open>re.split\<close> with that pattern.\<close>

function split_seps :: "bool \<Rightarrow> string \<Rightarrow> string list" where
  "split_seps pw [] = [[]]"
| "split_seps pw (c # cs) =
     (if is_sep_char c then [] # split_seps False cs
      else if and_at pw (c # cs) then [] # split_seps True (drop 2 cs)
      else (case split_seps (is_word c) cs of x # xs \<Rightarrow> (c # x) # xs | [] \<Rightarrow> [[c]]))"
  by pat_completeness auto
termination
  by (relation "measure (\<lambda>(pw, s). length s)") auto

subsection \<open>Parenthetical asides: \<open>re.sub(r"\(.*?\)", "", p)\<close>\<close>

text \<open>
  The dot does not match a newline, and the star is lazy: an opening parenthesis matches
  up to the first closing one, provided no newline comes before it.
\<close>

function strip_parens :: "string \<Rightarrow> string" where
  "strip_parens [] = []"
| "strip_parens (c # cs) =
     (if c = CHR ''(''
      then (case dropWhile (\<lambda>x. x \<noteq> CHR '')'' \<and> x \<noteq> NL) cs of
              [] \<Rightarrow> c # strip_parens cs
            | r # rs \<Rightarrow> if r = CHR '')'' then strip_parens rs else c # strip_parens cs)
      else c # strip_parens cs)"
  by pat_completeness auto
termination
proof (relation "measure length", goal_cases)
  case 1
  show ?case by simp
next
  case (2 c cs)
  show ?case by simp
next
  case (3 c cs r rs)
  have "length (dropWhile (\<lambda>x. x \<noteq> CHR '')'' \<and> x \<noteq> NL) cs) \<le> length cs"
    by (rule length_dropWhile_le)
  with 3 show ?case by simp
next
  case (4 c cs r rs)
  show ?case by simp
next
  case (5 c cs)
  show ?case by simp
qed

subsection \<open>The lowercase descriptor: \<open>re.search(r"\b[a-z]{2,}\b", p)\<close>\<close>

text \<open>
  The start of the leftmost match, if any. A match starts at a lowercase letter that
  follows no word character; the greedy run of lowercase letters must have two letters at
  least and end at a word boundary (a shorter run would end before a lowercase letter,
  which is no boundary).
\<close>

fun search_low_from :: "bool \<Rightarrow> nat \<Rightarrow> string \<Rightarrow> nat option" where
  "search_low_from pw pos [] = None"
| "search_low_from pw pos (c # cs) =
     (if \<not> pw \<and> is_lower c
         \<and> 2 \<le> length (takeWhile is_lower (c # cs))
         \<and> (case dropWhile is_lower (c # cs) of [] \<Rightarrow> True | d # _ \<Rightarrow> \<not> is_word d)
      then Some pos
      else search_low_from (is_word c) (pos + 1) cs)"

definition search_low :: "string \<Rightarrow> nat option" where
  "search_low p = search_low_from False 0 p"

text \<open>
  Lines 66 to 68 of \<open>extract_named_candidates\<close> and lines 93 to 95 of \<open>normalize_token\<close>:
  \<open>low = re.search(...)\<close>, and \<open>p = p[:low.start()].strip()\<close> if there is a match.
\<close>

definition truncate_low :: "string \<Rightarrow> string" where
  "truncate_low p = (case search_low p of Some i \<Rightarrow> strip (take i p) | None \<Rightarrow> p)"

subsection \<open>The name pattern: \<open>re.match(r"^([A-Z0-9'\-]+(?:\s+[A-Z0-9'\-]+)*)", p)\<close>\<close>

definition name_char :: "char \<Rightarrow> bool" where
  "name_char c \<longleftrightarrow> is_upper c \<or> is_digit c \<or> c = CHR 0x27 \<or> c = CHR ''-''"

text \<open>The greedy repetition \<open>(?:\s+[A-Z0-9'\-]+)*\<close>: what it consumes at the head of \<open>s\<close>.\<close>

function name_tail :: "string \<Rightarrow> string" where
  "name_tail s =
     (let ws = takeWhile is_space s; r = dropWhile is_space s;
          w = takeWhile name_char r
      in if ws = [] \<or> w = [] then [] else ws @ w @ name_tail (dropWhile name_char r))"
  by pat_completeness auto
termination
proof (relation "measure length", goal_cases)
  case 1
  show ?case by simp
next
  case (2 s ws r w)
  have a: "length (dropWhile name_char r) \<le> length r"
    by (rule length_dropWhile_le)
  have "length ws + length r = length s"
    using 2 by (metis length_append takeWhile_dropWhile_id)
  moreover have "0 < length ws" using 2 by simp
  ultimately have "length r < length s" by linarith
  with a show ?case by simp
qed

text \<open>Group 1 of the match, or \<open>None\<close> when the pattern does not match.\<close>

definition match_name :: "string \<Rightarrow> string option" where
  "match_name p =
     (let w = takeWhile name_char p
      in if w = [] then None else Some (w @ name_tail (dropWhile name_char p)))"

section \<open>\<open>normalize_and_extract.py\<close>\<close>

subsection \<open>\<open>extract_named_candidates\<close>\<close>

text \<open>
  Lines 70 to 80: the part \<open>p\<close>, already truncated, adds its leading run of uppercase
  words, or the placeholder it spells, to \<open>names\<close>.
\<close>

definition add_candidate :: "string list \<Rightarrow> string \<Rightarrow> string list" where
  "add_candidate names p =
     (case match_name p of
        Some g \<Rightarrow>
          (let cand = strip g
           in if cand \<noteq> [] \<and> cand \<notin> set names then names @ [cand] else names)
      | None \<Rightarrow>
          (let up = upper (strip p)
           in if up \<in> {''ALL'', ''BOTH''} \<and> up \<notin> set names
              then names @ [up] else names))"

text \<open>One turn of the inner loop, for the part \<open>p\<close>; \<open>names\<close> is the list built so far.\<close>

definition cand_part :: "string list \<Rightarrow> string \<Rightarrow> string list" where
  "cand_part names p =
     (let p1 = strip (strip_parens p)
      in if p1 = [] then names else add_candidate names (truncate_low p1))"

definition extract_named_candidates :: "string \<Rightarrow> string list" where
  "extract_named_candidates text =
     foldl (\<lambda>names m. foldl cand_part names (split_seps False (m_group1 m)))
       [] (finditer text)"

subsection \<open>\<open>normalize_token\<close>, with the candidate list\<close>

text \<open>
  Lines 89 to 98: the part without parentheticals, trimmed, truncated at the lowercase
  descriptor and uppercased; \<open>None\<close> where the loop goes on to the next part.
\<close>

definition clean_part :: "string \<Rightarrow> string option" where
  "clean_part p =
     (let p0 = strip (strip_parens p)
      in if p0 = [] then None
         else (let p1 = truncate_low p0
               in if p1 = [] then None else Some (upper p1)))"

text \<open>\<open>if n not in out_parts: out_parts.append(n)\<close>.\<close>

definition add_unique :: "string list \<Rightarrow> string \<Rightarrow> string list" where
  "add_unique out n = (if n \<in> set out then out else out @ [n])"

text \<open>One turn of the loop over the parts.\<close>

definition norm_part :: "string list \<Rightarrow> string list \<Rightarrow> string \<Rightarrow> string list" where
  "norm_part named_list out_parts p =
     (case clean_part p of
        None \<Rightarrow> out_parts
      | Some up \<Rightarrow>
          if up \<in> {''BOTH'', ''ALL''} then foldl add_unique out_parts named_list
          else (case match_name up of
                  Some g \<Rightarrow> add_unique out_parts (strip g)
                | None \<Rightarrow>
                    (let cand = strip up
                     in if cand \<noteq> [] \<and> cand \<notin> set out_parts
                        then out_parts @ [cand] else out_parts)))"

definition normalize_token :: "string \<Rightarrow> string list \<Rightarrow> string" where
  "normalize_token inner named_list =
     (let out_parts = foldl (norm_part named_list) [] (split_seps False inner)
      in if out_parts = [] then strip inner else join '', '' out_parts)"

subsection \<open>\<open>clean_whitespace\<close>\<close>

text \<open>\<open>text.replace("\r\n", "\n")\<close> and then \<open>.replace("\r", "\n")\<close>.\<close>

fun replace_crlf :: "string \<Rightarrow> string" where
  "replace_crlf [] = []"
| "replace_crlf [c] = [c]"
| "replace_crlf (c # d # cs) =
     (if c = CR \<and> d = NL then NL # replace_crlf cs else c # replace_crlf (d # cs))"

definition replace_cr :: "string \<Rightarrow> string" where
  "replace_cr s = map (\<lambda>c. if c = CR then NL else c) s"

text \<open>
  \<open>re.sub\<close> of a pattern \<open>C{k,}\<close> for a character class \<open>C\<close> and \<open>1 \<le> k\<close>: every maximal
  run of \<open>k\<close> or more characters of the class is replaced by \<open>rep\<close>. The two instances
  are \<open>[ \t]{2,}\<close> and \<open>\n{3,}\<close>.
\<close>

function sub_runs :: "(char \<Rightarrow> bool) \<Rightarrow> nat \<Rightarrow> string \<Rightarrow> string \<Rightarrow> string" where
  "sub_runs P k rep [] = []"
| "sub_runs P k rep (c # cs) =
     (if P c \<and> k \<le> length (takeWhile P (c # cs))
      then rep @ sub_runs P k rep (dropWhile P cs)
      else c # sub_runs P k rep cs)"
  by pat_completeness auto
termination
proof (relation "measure (\<lambda>(P, k, rep, s). length s)", goal_cases)
  case 1
  show ?case by simp
next
  case (2 P k rep c cs)
  have "length (dropWhile P cs) \<le> length cs" by (rule length_dropWhile_le)
  then show ?case by simp
next
  case (3 P k rep c cs)
  show ?case by simp
qed

definition is_blank :: "char \<Rightarrow> bool" where
  "is_blank c \<longleftrightarrow> c = SPC \<or> c = TAB"

definition clean_whitespace :: "string \<Rightarrow> string" where
  "clean_whitespace text =
     (let text1 = replace_cr (replace_crlf text);
          lines1 = map rstrip (split_chr NL text1);
          lines2 = map (sub_runs is_blank 2 [SPC]) lines1;
          text2 = join [NL] lines2;
          text3 = sub_runs (\<lambda>c. c = NL) 3 [NL, NL] text2
      in strip text3 @ [NL])"

subsection \<open>\<open>normalize_file\<close>\<close>

text \<open>
  The text that \<open>normalize_file\<close> writes back, as a function of the text it read (the
  backup and the count of changed tokens are left out).
\<close>

definition normalize_file_text :: "string \<Rightarrow> string" where
  "normalize_file_text orig =
     (let text = clean_whitespace orig;
          named = extract_named_candidates text
      in sub_speaker (\<lambda>inner. normalize_token inner named) text)"

subsection \<open>\<open>parse_segments\<close>\<close>

text \<open>
  The end of segment \<open>i\<close>: the start of the next match, or the length of the text
  (\<open>matches[i + 1].start() if i + 1 < len(matches) else len(text)\<close>).
\<close>

definition seg_end :: "string \<Rightarrow> smatch list \<Rightarrow> nat \<Rightarrow> nat" where
  "seg_end text matches i =
     (if i + 1 < length matches then m_start (matches ! (i + 1)) else length text)"

definition parse_segments :: "string \<Rightarrow> (string list \<times> string) list" where
  "parse_segments text =
     (let matches = finditer text
      in if matches = []
         then (let content = strip text
               in if content \<noteq> [] then [([''NARRATION''], content)] else [])
         else map (\<lambda>i. let m = matches ! i;
                            content = strip (slice text (m_end m) (seg_end text matches i));
                            parts = filter (\<lambda>p. p \<noteq> [])
                                      (map strip (split_chr (CHR '','') (m_group1 m)))
                        in (parts, content))
                [0..<length matches])"

subsection \<open>\<open>extract_all\<close>: the rows of one document\<close>

text \<open>
  \<open>by_char\<close> is a \<open>defaultdict(list)\<close>, which keeps its keys in insertion order: an
  association list. \<open>by_char[key].append(content)\<close>:
\<close>

definition dict_append ::
   "(string \<times> string list) list \<Rightarrow> string \<Rightarrow> string \<Rightarrow> (string \<times> string list) list" where
  "dict_append d key content =
     (if key \<in> fst ` set d
      then map (\<lambda>(k, vs). if k = key then (k, vs @ [content]) else (k, vs)) d
      else d @ [(key, [content])])"

definition aggregate_by_char ::
   "(string list \<times> string) list \<Rightarrow> (string \<times> string list) list" where
  "aggregate_by_char segments =
     foldl (\<lambda>by_char (speakers, content).
              if content = [] then by_char
              else foldl (\<lambda>d s. dict_append d (title s) content) by_char speakers)
       [] segments"

text \<open>The rows \<open>(saga, song, character, lines)\<close> appended for one document.\<close>

definition character_rows ::
   "string \<Rightarrow> string \<Rightarrow> (string list \<times> string) list
      \<Rightarrow> (string \<times> string \<times> string \<times> string) list" where
  "character_rows saga song segments =
     map (\<lambda>(character, segs). (saga, song, character, join [NL, NL] segs))
       (aggregate_by_char segments)"

section \<open>\<open>segments_to_csv.py\<close>\<close>

subsection \<open>\<open>normalize_token\<close>, without context\<close>

text \<open>\<open>re.sub(r"[&/|]", ",", inner)\<close>.\<close>

definition sub_amp :: "string \<Rightarrow> string" where
  "sub_amp s = map (\<lambda>c. if c \<in> set [CHR ''&'', CHR ''/'', CHR ''|''] then CHR '','' else c) s"

text \<open>\<open>re.sub(r"\band\b", ",", s, flags=re.IGNORECASE)\<close>.\<close>

function sub_and :: "bool \<Rightarrow> string \<Rightarrow> string" where
  "sub_and pw [] = []"
| "sub_and pw (c # cs) =
     (if and_at pw (c # cs) then CHR '','' # sub_and True (drop 2 cs)
      else c # sub_and (is_word c) cs)"
  by pat_completeness auto
termination
  by (relation "measure (\<lambda>(pw, s). length s)") auto

definition normalize_token_csv :: "string \<Rightarrow> string" where
  "normalize_token_csv inner =
     (let s = sub_and False (sub_amp inner);
          parts = filter (\<lambda>p. p \<noteq> []) (map strip (split_chr (CHR '','') s))
      in join '', '' parts)"

subsection \<open>\<open>segments_from_text\<close>\<close>

definition segments_from_text :: "string \<Rightarrow> (string \<times> string) list" where
  "segments_from_text text =
     (let matches = finditer text
      in if matches = []
         then (let content = strip text
               in if content \<noteq> [] then [(''NARRATION'', content)] else [])
         else map (\<lambda>i. let m = matches ! i;
                            content = strip (slice text (m_end m) (seg_end text matches i));
                            token = normalize_token_csv (m_group1 m)
                        in (token, content))
                [0..<length matches])"

text \<open>The rows \<open>(saga, song, character, lyrics)\<close> that \<open>main\<close> appends for one document.\<close>

definition segment_rows ::
   "string \<Rightarrow> string \<Rightarrow> string \<Rightarrow> (string \<times> string \<times> string \<times> string) list" where
  "segment_rows saga song text =
     map (\<lambda>(char, lyrics). (saga, song, char, lyrics)) (segments_from_text text)"

section \<open>Notions used in the statements\<close>

text \<open>
  A text holds an annotation when it has an opening bracket, one or more characters other
  than the closing bracket, and the closing bracket.
\<close>

definition has_annotation :: "string \<Rightarrow> bool" where
  "has_annotation text \<longleftrightarrow>
     (\<exists>a inner b. text = a @ CHR ''['' # inner @ CHR '']'' # b
        \<and> inner \<noteq> [] \<and> CHR '']'' \<notin> set inner)"

text \<open>
  A lowercase word starts at offset \<open>i\<close> of \<open>s\<close>: two or more lowercase letters, with no
  word character (letter, digit or underscore) right before them or right after them.
\<close>

definition low_word_at :: "string \<Rightarrow> nat \<Rightarrow> bool" where
  "low_word_at s i \<longleftrightarrow>
     (\<exists>a w b. s = a @ w @ b \<and> length a = i \<and> 2 \<le> length w \<and> list_all is_lower w
        \<and> (a = [] \<or> \<not> is_word (last a)) \<and> (b = [] \<or> \<not> is_word (hd b)))"

text \<open>The same with the flag of the scanner: is the character before \<open>s\<close> a word character?\<close>

definition low_word_from :: "bool \<Rightarrow> string \<Rightarrow> nat \<Rightarrow> bool" where
  "low_word_from pw s i \<longleftrightarrow>
     (\<exists>a w b. s = a @ w @ b \<and> length a = i \<and> 2 \<le> length w \<and> list_all is_lower w
        \<and> (if a = [] then \<not> pw else \<not> is_word (last a)) \<and> (b = [] \<or> \<not> is_word (hd b)))"

text \<open>
  The untrimmed text of segment \<open>i\<close>: what lies between the end of match \<open>i\<close> and the
  start of the next match, or the end of the text.
\<close>

definition raw_span :: "string \<Rightarrow> smatch list \<Rightarrow> nat \<Rightarrow> string" where
  "raw_span text matches i = slice text (m_end (matches ! i)) (seg_end text matches i)"

text \<open>Each match with the end of its segment, by recursion on the list of matches.\<close>

fun spans :: "nat \<Rightarrow> smatch list \<Rightarrow> (smatch \<times> nat) list" where
  "spans len [] = []"
| "spans len [m] = [(m, len)]"
| "spans len (m # m' # ms) = (m, m_start m') # spans len (m' # ms)"

text \<open>
  The texts that per-character aggregation collects for the character \<open>k\<close>: in document
  order, the text of each segment that is not empty, once for every speaker of the
  segment whose title-cased name is \<open>k\<close>.
\<close>

definition contents_for :: "string \<Rightarrow> (string list \<times> string) list \<Rightarrow> string list" where
  "contents_for k segments =
     concat (map (\<lambda>(speakers, content).
                    if content = [] then []
                    else map (\<lambda>s. content) (filter (\<lambda>s. title s = k) speakers))
               segments)"

text \<open>The list stored under a key of an association list, empty for a missing key.\<close>

definition values_of :: "(string \<times> string list) list \<Rightarrow> string \<Rightarrow> string list" where
  "values_of d k = (case map_of d k of None \<Rightarrow> [] | Some vs \<Rightarrow> vs)"

text \<open>The loop body of the per-character aggregation, for one segment.\<close>

definition seg_step ::
   "(string \<times> string list) list \<Rightarrow> string list \<times> string \<Rightarrow> (string \<times> string list) list" where
  "seg_step by_char seg =
     (case seg of (speakers, content) \<Rightarrow>
        if content = [] then by_char
        else foldl (\<lambda>d s. dict_append d (title s) content) by_char speakers)"

text \<open>
  What \<open>clean_whitespace\<close> does to one line: \<open>rstrip\<close>, then the collapse of the runs of
  blanks.
\<close>

definition clean_line :: "string \<Rightarrow> string" where
  "clean_line l = sub_runs is_blank 2 [SPC] (rstrip l)"

text \<open>
  Two neighbours in a cleaned text: never two blanks, and no whitespace other than a
  newline right before a newline.
\<close>

definition tidy :: "char \<Rightarrow> char \<Rightarrow> bool" where
  "tidy x y \<longleftrightarrow> \<not> (is_blank x \<and> is_blank y) \<and> (y \<noteq> NL \<or> \<not> is_space x \<or> x = NL)"

text \<open>No three newlines in a row.\<close>

definition no3 :: "string \<Rightarrow> bool" where
  "no3 s \<longleftrightarrow> \<not> (\<exists>a b. s = a @ [NL, NL, NL] @ b)"

section \<open>The token normalizer\<close>

lemma foldl_add_unique:
  "foldl add_unique out ns = out @ rev (remdups (rev (filter (\<lambda>n. n \<notin> set out) ns)))"
proof (induction ns rule: rev_induct)
  case Nil
  show ?case by simp
next
  case (snoc n ns)
  have "foldl add_unique out (ns @ [n]) = add_unique (foldl add_unique out ns) n"
    by simp
  also have "\<dots> = add_unique (out @ rev (remdups (rev (filter (\<lambda>n. n \<notin> set out) ns)))) n"
    by (simp only: snoc)
  also have "\<dots> = out @ rev (remdups (rev (filter (\<lambda>n. n \<notin> set out) (ns @ [n]))))"
    by (auto simp: add_unique_def)
  finally show ?case .
qed

text \<open>
  Claim C2. A part that, once its parentheticals are stripped, its lowercase descriptor
  is cut off and it is uppercased, equals "BOTH" or "ALL" makes \<open>normalize_token\<close> append
  every entry of the candidate list that the output list does not hold yet, in the
  stored order and each once. With the candidates "ODYSSEUS" and "PENELOPE" the inner
  text "BOTH" becomes "ODYSSEUS, PENELOPE".
\<close>

theorem normalize_token_expands_collective:
  assumes "clean_part p = Some ''BOTH'' \<or> clean_part p = Some ''ALL''"
  shows "norm_part named_list out_parts p
           = out_parts @ rev (remdups (rev (filter (\<lambda>n. n \<notin> set out_parts) named_list)))
         \<and> normalize_token ''BOTH'' [''ODYSSEUS'', ''PENELOPE''] = ''ODYSSEUS, PENELOPE''"
proof
  from assms show "norm_part named_list out_parts p
           = out_parts @ rev (remdups (rev (filter (\<lambda>n. n \<notin> set out_parts) named_list)))"
    by (auto simp: norm_part_def foldl_add_unique)
  show "normalize_token ''BOTH'' [''ODYSSEUS'', ''PENELOPE''] = ''ODYSSEUS, PENELOPE''"
    by code_simp
qed

theorem normalize_token_expands_collective_witness:
  "clean_part '' ALL (loudly)'' = Some ''ALL''
   \<and> norm_part [''A'', ''B'', ''A'', ''C''] [''B''] '' ALL (loudly)'' = [''B'', ''A'', ''C'']"
proof -
  have c: "clean_part '' ALL (loudly)'' = Some ''ALL''"
    by code_simp
  then have h: "clean_part '' ALL (loudly)'' = Some ''BOTH''
                \<or> clean_part '' ALL (loudly)'' = Some ''ALL''"
    by simp
  have "norm_part [''A'', ''B'', ''A'', ''C''] [''B''] '' ALL (loudly)''
          = [''B''] @ rev (remdups (rev (filter (\<lambda>n. n \<notin> set [''B''])
                                            [''A'', ''B'', ''A'', ''C''])))"
    using normalize_token_expands_collective [OF h, of "[''A'', ''B'', ''A'', ''C'']" "[''B'']"]
    by (rule conjunct1)
  then show ?thesis using c by simp
qed

text \<open>
  Claim C3, as stated: when no part leaves anything in the output list, the inner text
  comes back untrimmed. It does not: \<open>normalize_token\<close> returns \<open>inner.strip()\<close>.
\<close>

theorem normalize_token_fallback_untrimmed_counterexample:
  "foldl (norm_part []) [] (split_seps False '' BOTH '') = []
   \<and> normalize_token '' BOTH '' [] \<noteq> '' BOTH ''"
  by code_simp

text \<open>
  Claim C3, amended: when no part leaves anything in the output list, \<open>normalize_token\<close>
  returns the inner text trimmed of the whitespace around it; the placeholders "BOTH"
  and "ALL", met with an empty candidate list, come back as they are.
\<close>

theorem normalize_token_fallback_trimmed:
  assumes "foldl (norm_part named_list) [] (split_seps False inner) = []"
  shows "normalize_token inner named_list = strip inner
         \<and> normalize_token ''BOTH'' [] = ''BOTH'' \<and> normalize_token ''ALL'' [] = ''ALL''"
proof -
  have "normalize_token ''BOTH'' [] = ''BOTH''" by code_simp
  moreover have "normalize_token ''ALL'' [] = ''ALL''" by code_simp
  ultimately show ?thesis using assms by (simp add: normalize_token_def)
qed

theorem normalize_token_fallback_trimmed_witness:
  "foldl (norm_part [''CIRCE'']) [] (split_seps False '' (aside), giggles '') = []
   \<and> normalize_token '' (aside), giggles '' [''CIRCE''] = ''(aside), giggles''"
proof -
  have h: "foldl (norm_part [''CIRCE'']) [] (split_seps False '' (aside), giggles '') = []"
    by code_simp
  have s: "strip '' (aside), giggles '' = ''(aside), giggles''"
    by code_simp
  from normalize_token_fallback_trimmed [OF h] s h show ?thesis by simp
qed

section \<open>The whitespace normalizer\<close>

text \<open>
  Claim C5. The comment in \<open>clean_whitespace\<close> says "Collapse 3+ blank lines into two",
  but the pattern counts newline characters: two blank lines between "a" and "b" are
  three newlines, and they come out as one blank line.
\<close>

theorem clean_whitespace_two_blank_lines:
  "clean_whitespace [CHR ''a'', NL, NL, NL, CHR ''b''] = [CHR ''a'', NL, NL, CHR ''b'', NL]
   \<and> clean_whitespace [CHR ''a'', NL, NL, NL, NL, CHR ''b''] = [CHR ''a'', NL, NL, CHR ''b'', NL]"
  by code_simp

section \<open>Worked examples\<close>

text \<open>
  Claim C7. On the two-line text of the specification, rewriting every annotation with
  the candidates extracted from that text gives "[ODYSSEUS]" and "[HERMES]", and
  \<open>segments_from_text\<close> on the rewritten text gives the two records; \<open>normalize_file\<close>,
  which cleans the whitespace first, writes the same text with a final newline, and the
  records are the same.
\<close>

theorem odysseus_hermes_example:
  "sub_speaker (\<lambda>inner. normalize_token inner
        (extract_named_candidates
           (''[ODYSSEUS, spoken] Hello'' @ [NL] @ ''[HERMES giggles] Hi there'')))
      (''[ODYSSEUS, spoken] Hello'' @ [NL] @ ''[HERMES giggles] Hi there'')
     = ''[ODYSSEUS] Hello'' @ [NL] @ ''[HERMES] Hi there''
   \<and> segments_from_text (''[ODYSSEUS] Hello'' @ [NL] @ ''[HERMES] Hi there'')
     = [(''ODYSSEUS'', ''Hello''), (''HERMES'', ''Hi there'')]
   \<and> normalize_file_text (''[ODYSSEUS, spoken] Hello'' @ [NL] @ ''[HERMES giggles] Hi there'')
     = ''[ODYSSEUS] Hello'' @ [NL] @ ''[HERMES] Hi there'' @ [NL]
   \<and> segments_from_text (''[ODYSSEUS] Hello'' @ [NL] @ ''[HERMES] Hi there'' @ [NL])
     = [(''ODYSSEUS'', ''Hello''), (''HERMES'', ''Hi there'')]"
  by code_simp

section \<open>The scanner\<close>

lemma speaker_match_SomeD:
  assumes "speaker_match s = Some (inner, rest)"
  shows "s = CHR ''['' # inner @ CHR '']'' # rest \<and> inner \<noteq> [] \<and> CHR '']'' \<notin> set inner"
proof -
  from assms obtain c cs where s: "s = c # cs"
    by (cases s) (auto simp: speaker_match_def)
  let ?P = "\<lambda>x. x \<noteq> CHR '']''"
  from assms s have c: "c = CHR ''[''" and i: "inner = takeWhile ?P cs"
    and ne: "inner \<noteq> []" and d: "dropWhile ?P cs \<noteq> []" and r: "rest = tl (dropWhile ?P cs)"
    by (auto simp: speaker_match_def Let_def split: if_splits)
  from d have "hd (dropWhile ?P cs) = CHR '']''"
    using hd_dropWhile [of ?P cs] by auto
  with d r have "dropWhile ?P cs = CHR '']'' # rest"
    by (cases "dropWhile ?P cs") auto
  then have "cs = inner @ CHR '']'' # rest"
    using i takeWhile_dropWhile_id [of ?P cs] by simp
  moreover have "CHR '']'' \<notin> set inner"
    using i by (auto dest: set_takeWhileD)
  ultimately show ?thesis using s c ne by simp
qed

lemma speaker_match_SomeI:
  assumes "inner \<noteq> []" and "CHR '']'' \<notin> set inner"
  shows "speaker_match (CHR ''['' # inner @ CHR '']'' # rest) = Some (inner, rest)"
proof -
  let ?P = "\<lambda>x. x \<noteq> CHR '']''"
  have a: "\<And>x. x \<in> set inner \<Longrightarrow> ?P x" using assms(2) by auto
  have "takeWhile ?P (inner @ CHR '']'' # rest) = inner"
    using a by (simp add: takeWhile_append2)
  moreover have "dropWhile ?P (inner @ CHR '']'' # rest) = CHR '']'' # rest"
    using a by (simp add: dropWhile_append2)
  ultimately show ?thesis using assms(1) by (simp add: speaker_match_def)
qed

lemma has_annotation_Cons:
  "has_annotation (c # cs) \<longleftrightarrow> speaker_match (c # cs) \<noteq> None \<or> has_annotation cs"
proof
  assume "has_annotation (c # cs)"
  then obtain a inner b where t: "c # cs = a @ CHR ''['' # inner @ CHR '']'' # b"
    and i: "inner \<noteq> []" "CHR '']'' \<notin> set inner"
    by (auto simp: has_annotation_def)
  show "speaker_match (c # cs) \<noteq> None \<or> has_annotation cs"
  proof (cases a)
    case Nil
    with t i show ?thesis by (simp add: speaker_match_SomeI)
  next
    case (Cons x a')
    with t have "cs = a' @ CHR ''['' # inner @ CHR '']'' # b" by simp
    with i show ?thesis unfolding has_annotation_def by blast
  qed
next
  assume "speaker_match (c # cs) \<noteq> None \<or> has_annotation cs"
  then show "has_annotation (c # cs)"
  proof
    assume "speaker_match (c # cs) \<noteq> None"
    then obtain inner rest where "speaker_match (c # cs) = Some (inner, rest)" by auto
    from speaker_match_SomeD [OF this] show ?thesis
      unfolding has_annotation_def by (intro exI [of _ "[]"] exI [of _ inner] exI [of _ rest]) simp
  next
    assume "has_annotation cs"
    then obtain a inner b where "cs = a @ CHR ''['' # inner @ CHR '']'' # b"
      and i: "inner \<noteq> []" "CHR '']'' \<notin> set inner"
      by (auto simp: has_annotation_def)
    then have "c # cs = (c # a) @ CHR ''['' # inner @ CHR '']'' # b" by simp
    with i show ?thesis unfolding has_annotation_def by blast
  qed
qed

lemma finditer_from_empty_iff: "finditer_from pos s = [] \<longleftrightarrow> \<not> has_annotation s"
proof (induction pos s rule: finditer_from.induct)
  case (1 pos)
  show ?case by (simp add: has_annotation_def)
next
  case (2 pos c cs)
  show ?case
  proof (cases "speaker_match (c # cs)")
    case None
    with 2 show ?thesis by (simp add: has_annotation_Cons)
  next
    case (Some a)
    then show ?thesis by (cases a) (simp add: has_annotation_Cons)
  qed
qed

lemma finditer_empty_iff: "finditer text = [] \<longleftrightarrow> \<not> has_annotation text"
  by (simp add: finditer_def finditer_from_empty_iff)

lemma strip_empty_iff: "strip s = [] \<longleftrightarrow> (\<forall>c\<in>set s. is_space c)"
proof -
  have a: "(\<forall>x\<in>set (dropWhile is_space s). is_space x) \<longleftrightarrow> dropWhile is_space s = []"
  proof
    assume h: "\<forall>x\<in>set (dropWhile is_space s). is_space x"
    show "dropWhile is_space s = []"
    proof (rule ccontr)
      assume n: "dropWhile is_space s \<noteq> []"
      then have "\<not> is_space (hd (dropWhile is_space s))" by (rule hd_dropWhile)
      moreover have "hd (dropWhile is_space s) \<in> set (dropWhile is_space s)"
        using n by (rule hd_in_set)
      ultimately show False using h by blast
    qed
  next
    assume e: "dropWhile is_space s = []"
    show "\<forall>x\<in>set (dropWhile is_space s). is_space x" unfolding e by simp
  qed
  have "strip s = [] \<longleftrightarrow> (\<forall>x\<in>set (dropWhile is_space s). is_space x)"
    by (simp add: strip_def rstrip_def lstrip_def dropWhile_eq_Nil_conv)
  also have "\<dots> \<longleftrightarrow> dropWhile is_space s = []" by (rule a)
  also have "\<dots> \<longleftrightarrow> (\<forall>c\<in>set s. is_space c)" by (simp add: dropWhile_eq_Nil_conv)
  finally show ?thesis .
qed

lemma no_annotation_without_bracket: "CHR ''['' \<notin> set text \<Longrightarrow> \<not> has_annotation text"
  by (auto simp: has_annotation_def)

section \<open>Texts without annotation\<close>

text \<open>
  Claim C8. A text without annotation gives, in both scripts, one segment of the speaker
  "NARRATION" holding the trimmed text when that is not empty, and no segment (so no
  row) when the text is empty or all whitespace.
\<close>

theorem narration:
  assumes "\<not> has_annotation text"
  shows "(strip text \<noteq> [] \<longrightarrow>
            parse_segments text = [([''NARRATION''], strip text)]
            \<and> segments_from_text text = [(''NARRATION'', strip text)]
            \<and> segment_rows saga song text = [(saga, song, ''NARRATION'', strip text)])
       \<and> (strip text = [] \<longrightarrow>
            parse_segments text = [] \<and> segments_from_text text = []
            \<and> segment_rows saga song text = []
            \<and> character_rows saga song (parse_segments text) = [])
       \<and> (strip text = [] \<longleftrightarrow> (\<forall>c\<in>set text. is_space c))"
proof -
  from assms have "finditer text = []" by (simp add: finditer_empty_iff)
  then show ?thesis
    by (simp add: parse_segments_def segments_from_text_def segment_rows_def
        character_rows_def aggregate_by_char_def strip_empty_iff)
qed

lemma whitespace_no_annotation:
  "\<forall>c\<in>set text. is_space c \<Longrightarrow> \<not> has_annotation text"
proof (rule no_annotation_without_bracket)
  assume a: "\<forall>c\<in>set text. is_space c"
  have "\<not> is_space CHR ''[''" by (simp add: is_space_def)
  with a show "CHR ''['' \<notin> set text" by blast
qed

theorem narration_witness:
  "\<not> has_annotation ''  Hello [world ''
   \<and> parse_segments ''  Hello [world '' = [([''NARRATION''], ''Hello [world'')]
   \<and> segments_from_text ''  Hello [world '' = [(''NARRATION'', ''Hello [world'')]
   \<and> \<not> has_annotation [SPC, NL, TAB]
   \<and> parse_segments [SPC, NL, TAB] = [] \<and> segments_from_text [SPC, NL, TAB] = []"
proof -
  have f: "finditer ''  Hello [world '' = []" by code_simp
  then have h: "\<not> has_annotation ''  Hello [world ''" using finditer_empty_iff by blast
  have s: "strip ''  Hello [world '' = ''Hello [world''" by code_simp
  have f2: "finditer [SPC, NL, TAB] = []" by code_simp
  then have h2: "\<not> has_annotation [SPC, NL, TAB]" using finditer_empty_iff by blast
  have s2: "strip [SPC, NL, TAB] = []" by code_simp
  have n1: "strip ''  Hello [world '' \<noteq> []" unfolding s by simp
  from narration [OF h, of "[]" "[]"] n1 have
    a: "parse_segments ''  Hello [world '' = [([''NARRATION''], strip ''  Hello [world '')]"
    and b: "segments_from_text ''  Hello [world '' = [(''NARRATION'', strip ''  Hello [world '')]"
    by blast+
  from narration [OF h2, of "[]" "[]"] s2 have
    c: "parse_segments [SPC, NL, TAB] = []" and d: "segments_from_text [SPC, NL, TAB] = []"
    by blast+
  from a b c d h h2 show ?thesis unfolding s by blast
qed

section \<open>The lowercase descriptor\<close>

lemma is_lower_word: "is_lower c \<Longrightarrow> is_word c"
  by (simp add: is_word_def)

lemma low_run_iff:
  "(\<exists>w b. s = w @ b \<and> 2 \<le> length w \<and> list_all is_lower w \<and> (b = [] \<or> \<not> is_word (hd b)))
   \<longleftrightarrow> 2 \<le> length (takeWhile is_lower s)
        \<and> (case dropWhile is_lower s of [] \<Rightarrow> True | d # _ \<Rightarrow> \<not> is_word d)"
proof
  assume "\<exists>w b. s = w @ b \<and> 2 \<le> length w \<and> list_all is_lower w \<and> (b = [] \<or> \<not> is_word (hd b))"
  then obtain w b where s: "s = w @ b" and w: "2 \<le> length w" "list_all is_lower w"
    and b: "b = [] \<or> \<not> is_word (hd b)" by blast
  from w(2) have all: "\<And>x. x \<in> set w \<Longrightarrow> is_lower x" by (simp add: list_all_iff)
  from b have tb: "takeWhile is_lower b = []" and db: "dropWhile is_lower b = b"
    by (cases b; auto dest: is_lower_word)+
  have tw: "takeWhile is_lower s = w" using s all tb by (simp add: takeWhile_append2)
  have dw: "dropWhile is_lower s = b" using s all db by (simp add: dropWhile_append2)
  show "2 \<le> length (takeWhile is_lower s)
        \<and> (case dropWhile is_lower s of [] \<Rightarrow> True | d # _ \<Rightarrow> \<not> is_word d)"
    unfolding tw dw using w(1) b by (cases b) auto
next
  assume r: "2 \<le> length (takeWhile is_lower s)
        \<and> (case dropWhile is_lower s of [] \<Rightarrow> True | d # _ \<Rightarrow> \<not> is_word d)"
  have "s = takeWhile is_lower s @ dropWhile is_lower s" by simp
  moreover have "list_all is_lower (takeWhile is_lower s)"
    by (auto simp: list_all_iff dest: set_takeWhileD)
  moreover have "dropWhile is_lower s = [] \<or> \<not> is_word (hd (dropWhile is_lower s))"
    using r by (cases "dropWhile is_lower s") auto
  ultimately show "\<exists>w b. s = w @ b \<and> 2 \<le> length w \<and> list_all is_lower w
      \<and> (b = [] \<or> \<not> is_word (hd b))"
    using r by blast
qed

lemma low_word_at_from: "low_word_at s i \<longleftrightarrow> low_word_from False s i"
  unfolding low_word_at_def low_word_from_def by (intro ex_cong1) auto

lemma low_word_from_Nil: "\<not> low_word_from pw [] i"
  by (auto simp: low_word_from_def)

lemma low_word_from_0:
  "low_word_from pw s 0 \<longleftrightarrow> \<not> pw \<and> 2 \<le> length (takeWhile is_lower s)
        \<and> (case dropWhile is_lower s of [] \<Rightarrow> True | d # _ \<Rightarrow> \<not> is_word d)"
proof -
  have "low_word_from pw s 0 \<longleftrightarrow> \<not> pw \<and>
     (\<exists>w b. s = w @ b \<and> 2 \<le> length w \<and> list_all is_lower w \<and> (b = [] \<or> \<not> is_word (hd b)))"
    by (auto simp: low_word_from_def)
  then show ?thesis by (simp only: low_run_iff)
qed

lemma low_word_from_Suc:
  "low_word_from pw (c # cs) (Suc j) \<longleftrightarrow> low_word_from (is_word c) cs j"
proof
  assume "low_word_from pw (c # cs) (Suc j)"
  then obtain a w b where s: "c # cs = a @ w @ b" and l: "length a = Suc j"
    and w: "2 \<le> length w" "list_all is_lower w"
    and pa: "if a = [] then \<not> pw else \<not> is_word (last a)" and pb: "b = [] \<or> \<not> is_word (hd b)"
    unfolding low_word_from_def by blast
  from l obtain a' where a: "a = c # a'" using s by (cases a) auto
  have "cs = a' @ w @ b" using s a by simp
  moreover have "length a' = j" using l a by simp
  moreover have "if a' = [] then \<not> is_word c else \<not> is_word (last a')"
    using pa a by (cases a') auto
  ultimately show "low_word_from (is_word c) cs j"
    unfolding low_word_from_def using w pb by blast
next
  assume "low_word_from (is_word c) cs j"
  then obtain a w b where s: "cs = a @ w @ b" and l: "length a = j"
    and w: "2 \<le> length w" "list_all is_lower w"
    and pa: "if a = [] then \<not> is_word c else \<not> is_word (last a)"
    and pb: "b = [] \<or> \<not> is_word (hd b)"
    unfolding low_word_from_def by blast
  have "c # cs = (c # a) @ w @ b" using s by simp
  moreover have "length (c # a) = Suc j" using l by simp
  moreover have "if c # a = [] then \<not> pw else \<not> is_word (last (c # a))"
    using pa by (cases a) auto
  ultimately show "low_word_from pw (c # cs) (Suc j)"
    unfolding low_word_from_def using w pb by blast
qed

lemma search_low_from_Some:
  "search_low_from pw pos s = Some k \<longleftrightarrow>
     (\<exists>j. k = pos + j \<and> low_word_from pw s j \<and> (\<forall>j'<j. \<not> low_word_from pw s j'))"
proof (induction pw pos s arbitrary: k rule: search_low_from.induct)
  case (1 pw pos)
  show ?case by (simp add: low_word_from_Nil)
next
  case (2 pw pos c cs)
  show ?case
  proof (cases "low_word_from pw (c # cs) 0")
    case True
    then have "search_low_from pw pos (c # cs) = Some pos"
      by (auto simp: low_word_from_0)
    moreover have "(\<exists>j. k = pos + j \<and> low_word_from pw (c # cs) j
        \<and> (\<forall>j'<j. \<not> low_word_from pw (c # cs) j')) \<longleftrightarrow> k = pos"
    proof
      assume "\<exists>j. k = pos + j \<and> low_word_from pw (c # cs) j
        \<and> (\<forall>j'<j. \<not> low_word_from pw (c # cs) j')"
      then obtain j where j: "k = pos + j" "\<forall>j'<j. \<not> low_word_from pw (c # cs) j'" by blast
      with True have "j = 0" by (cases j) auto
      with j show "k = pos" by simp
    next
      assume "k = pos"
      with True show "\<exists>j. k = pos + j \<and> low_word_from pw (c # cs) j
        \<and> (\<forall>j'<j. \<not> low_word_from pw (c # cs) j')" by (intro exI [of _ 0]) simp
    qed
    ultimately show ?thesis by auto
  next
    case False
    then have n: "\<not> (\<not> pw \<and> is_lower c \<and> 2 \<le> length (takeWhile is_lower (c # cs))
         \<and> (case dropWhile is_lower (c # cs) of [] \<Rightarrow> True | d # _ \<Rightarrow> \<not> is_word d))"
      by (simp only: low_word_from_0) blast
    then have e: "search_low_from pw pos (c # cs) = search_low_from (is_word c) (pos + 1) cs"
      by (subst search_low_from.simps(2)) (simp only: if_False)
    have ih: "search_low_from (is_word c) (pos + 1) cs = Some k \<longleftrightarrow>
       (\<exists>j. k = pos + 1 + j \<and> low_word_from (is_word c) cs j
          \<and> (\<forall>j'<j. \<not> low_word_from (is_word c) cs j'))"
      using n by (intro "2.IH") 
    have "(\<exists>j. k = pos + j \<and> low_word_from pw (c # cs) j
        \<and> (\<forall>j'<j. \<not> low_word_from pw (c # cs) j'))
      \<longleftrightarrow> (\<exists>j. k = pos + 1 + j \<and> low_word_from (is_word c) cs j
          \<and> (\<forall>j'<j. \<not> low_word_from (is_word c) cs j'))"
    proof
      assume "\<exists>j. k = pos + j \<and> low_word_from pw (c # cs) j
        \<and> (\<forall>j'<j. \<not> low_word_from pw (c # cs) j')"
      then obtain j where j: "k = pos + j" "low_word_from pw (c # cs) j"
        "\<forall>j'<j. \<not> low_word_from pw (c # cs) j'" by blast
      from j(2) False obtain i where i: "j = Suc i" by (cases j) auto
      have "\<forall>j'<i. \<not> low_word_from (is_word c) cs j'"
      proof (intro allI impI)
        fix j' assume "j' < i"
        then have "Suc j' < j" using i by simp
        with j(3) have "\<not> low_word_from pw (c # cs) (Suc j')" by blast
        then show "\<not> low_word_from (is_word c) cs j'" using low_word_from_Suc by blast
      qed
      moreover have "low_word_from (is_word c) cs i" using j(2) i using low_word_from_Suc by blast
      moreover have "k = pos + 1 + i" using j(1) i by simp
      ultimately show "\<exists>j. k = pos + 1 + j \<and> low_word_from (is_word c) cs j
          \<and> (\<forall>j'<j. \<not> low_word_from (is_word c) cs j')" by blast
    next
      assume "\<exists>j. k = pos + 1 + j \<and> low_word_from (is_word c) cs j
          \<and> (\<forall>j'<j. \<not> low_word_from (is_word c) cs j')"
      then obtain i where i: "k = pos + 1 + i" "low_word_from (is_word c) cs i"
        "\<forall>j'<i. \<not> low_word_from (is_word c) cs j'" by blast
      have "\<forall>j'<Suc i. \<not> low_word_from pw (c # cs) j'"
      proof (intro allI impI)
        fix j' assume l: "j' < Suc i"
        show "\<not> low_word_from pw (c # cs) j'"
        proof (cases j')
          case 0
          with False show ?thesis by simp
        next
          case (Suc m)
          with l i(3) have "\<not> low_word_from (is_word c) cs m" by simp
          with Suc show ?thesis using low_word_from_Suc by blast 
        qed
      qed
      moreover have "low_word_from pw (c # cs) (Suc i)" using i(2) using low_word_from_Suc by blast
      moreover have "k = pos + Suc i" using i(1) by simp
      ultimately show "\<exists>j. k = pos + j \<and> low_word_from pw (c # cs) j
        \<and> (\<forall>j'<j. \<not> low_word_from pw (c # cs) j')" by blast
    qed
    with e ih show ?thesis by simp
  qed
qed

lemma search_low_Some:
  "search_low p = Some i \<longleftrightarrow> low_word_at p i \<and> (\<forall>j<i. \<not> low_word_at p j)"
  by (simp add: search_low_def search_low_from_Some low_word_at_from)

lemma search_low_None: "search_low p = None \<longleftrightarrow> (\<forall>i. \<not> low_word_at p i)"
proof
  assume n: "search_low p = None"
  show "\<forall>i. \<not> low_word_at p i"
  proof (rule ccontr)
    assume "\<not> (\<forall>i. \<not> low_word_at p i)"
    then obtain i where "low_word_at p i" by blast
    then have "low_word_at p (LEAST i. low_word_at p i)"
      and "\<forall>j<(LEAST i. low_word_at p i). \<not> low_word_at p j"
      by (auto intro: LeastI dest: not_less_Least)
    then have "search_low p = Some (LEAST i. low_word_at p i)"
      using search_low_Some by blast
    with n show False by simp
  qed
next
  assume a: "\<forall>i. \<not> low_word_at p i"
  show "search_low p = None"
  proof (cases "search_low p")
    case None then show ?thesis .
  next
    case (Some i)
    then have "low_word_at p i" using search_low_Some by blast
    with a show ?thesis by blast
  qed
qed

text \<open>
  Claim C4, as stated: whenever the part has a run of two or more lowercase letters, it
  is cut at the start of the run. It is not when the run is glued to a word character:
  "giggles" in "HERMESgiggles" follows a letter, and the part stays whole.
\<close>

theorem truncate_any_lowercase_run_counterexample:
  "list_all is_lower ''giggles''
   \<and> truncate_low (''HERMES'' @ ''giggles'') = ''HERMES'' @ ''giggles''
   \<and> clean_part (''HERMES'' @ ''giggles'') = Some ''HERMESGIGGLES''
   \<and> normalize_token (''HERMES'' @ ''giggles'') [] = ''HERMESGIGGLES''"
  by code_simp

text \<open>
  Claim C4, amended. In \<open>extract_named_candidates\<close> and in \<open>normalize_token\<close> alike, with
  \<open>p\<close> the part without its parentheticals and trimmed: if \<open>p\<close> has a lowercase word (two
  or more lowercase letters between word boundaries), the part is cut at the start of
  the first one and what is left before it is trimmed; if it has none, the part is kept.
\<close>

theorem truncate_at_lowercase_word:
  assumes "p = strip (strip_parens q)" and "p \<noteq> []"
  shows "(low_word_at p i \<and> (\<forall>j<i. \<not> low_word_at p j) \<longrightarrow>
            truncate_low p = strip (take i p)
            \<and> cand_part names q = add_candidate names (strip (take i p))
            \<and> clean_part q = (if strip (take i p) = [] then None
                               else Some (upper (strip (take i p)))))
       \<and> ((\<forall>i. \<not> low_word_at p i) \<longrightarrow>
            truncate_low p = p
            \<and> cand_part names q = add_candidate names p
            \<and> clean_part q = Some (upper p))"
proof (intro conjI impI)
  assume "low_word_at p i \<and> (\<forall>j<i. \<not> low_word_at p j)"
  then have "search_low p = Some i" using search_low_Some by blast
  then have t: "truncate_low p = strip (take i p)" by (simp add: truncate_low_def)
  show "truncate_low p = strip (take i p)" by (rule t)
  show "cand_part names q = add_candidate names (strip (take i p))"
    using assms t by (simp add: cand_part_def)
  show "clean_part q = (if strip (take i p) = [] then None else Some (upper (strip (take i p))))"
    using assms t by (simp add: clean_part_def)
next
  assume "\<forall>i. \<not> low_word_at p i"
  then have "search_low p = None" using search_low_None by blast
  then have t: "truncate_low p = p" by (simp add: truncate_low_def)
  show "truncate_low p = p" by (rule t)
  show "cand_part names q = add_candidate names p"
    using assms t by (simp add: cand_part_def)
  show "clean_part q = Some (upper p)"
    using assms t by (simp add: clean_part_def)
qed

theorem truncate_at_lowercase_word_witness:
  "''HERMES giggles'' = strip (strip_parens ''HERMES giggles (aside)'')
   \<and> low_word_at ''HERMES giggles'' 7
   \<and> truncate_low ''HERMES giggles'' = ''HERMES''
   \<and> cand_part [] ''HERMES giggles (aside)'' = [''HERMES'']
   \<and> clean_part ''HERMES giggles (aside)'' = Some ''HERMES''"
proof -
  have p: "''HERMES giggles'' = strip (strip_parens ''HERMES giggles (aside)'')"
    by code_simp
  have n: "''HERMES giggles'' \<noteq> []" by simp
  have "search_low ''HERMES giggles'' = Some 7" by code_simp
  then have l: "low_word_at ''HERMES giggles'' 7
      \<and> (\<forall>j<7. \<not> low_word_at ''HERMES giggles'' j)"
    using search_low_Some by blast
  have s: "strip (take 7 ''HERMES giggles'') = ''HERMES''" by code_simp
  have a: "add_candidate [] ''HERMES'' = [''HERMES'']" by code_simp
  have u: "upper ''HERMES'' = ''HERMES''" by code_simp
  from truncate_at_lowercase_word [OF p n, of 7 "[]"] l
  have "truncate_low ''HERMES giggles'' = strip (take 7 ''HERMES giggles'')
      \<and> cand_part [] ''HERMES giggles (aside)''
          = add_candidate [] (strip (take 7 ''HERMES giggles''))
      \<and> clean_part ''HERMES giggles (aside)''
          = (if strip (take 7 ''HERMES giggles'') = [] then None
             else Some (upper (strip (take 7 ''HERMES giggles''))))"
    by blast
  then show ?thesis unfolding s a u using p l by simp
qed

section \<open>Annotations and segments\<close>

lemma slice_append:
  assumes "a \<le> b" and "b \<le> c"
  shows "slice s a b @ slice s b c = slice s a c"
proof -
  have "take (c - a) (drop a s) = take ((b - a) + (c - b)) (drop a s)"
    using assms by simp
  also have "\<dots> = take (b - a) (drop a s) @ take (c - b) (drop (b - a) (drop a s))"
    by (rule take_add)
  also have "drop (b - a) (drop a s) = drop b s"
    using assms by simp
  finally show ?thesis by (simp add: slice_def)
qed

lemma slice_to_end: "slice s a (length s) = drop a s"
  by (simp add: slice_def)

lemma seg_end_Cons: "seg_end text (m # ms) (Suc i) = seg_end text ms i"
  by (simp add: seg_end_def)

lemma upt_0_Suc: "[0..<Suc n] = 0 # map Suc [0..<n]"
  by (simp add: upt_conv_Cons map_Suc_upt del: upt_Suc)

lemma map_index_Cons:
  "map f [0..<length (x # xs)] = f 0 # map (\<lambda>i. f (Suc i)) [0..<length xs]"
  unfolding length_Cons upt_0_Suc by (simp add: comp_def)

lemma index_spans:
  "map (\<lambda>i. (ms ! i, seg_end text ms i)) [0..<length ms] = spans (length text) ms"
proof (induction "length text" ms rule: spans.induct)
  case 1
  show ?case by simp
next
  case (2 m)
  show ?case by (simp add: seg_end_def)
next
  case (3 m m' ms)
  have "map (\<lambda>i. ((m # m' # ms) ! i, seg_end text (m # m' # ms) i)) [0..<length (m # m' # ms)]
     = ((m # m' # ms) ! 0, seg_end text (m # m' # ms) 0)
       # map (\<lambda>i. ((m # m' # ms) ! Suc i, seg_end text (m # m' # ms) (Suc i)))
           [0..<length (m' # ms)]"
    by (rule map_index_Cons)
  also have "\<dots> = (m, m_start m')
       # map (\<lambda>i. ((m' # ms) ! i, seg_end text (m' # ms) i)) [0..<length (m' # ms)]"
    unfolding seg_end_Cons nth_Cons_Suc nth_Cons_0 by (simp add: seg_end_def)
  also have "\<dots> = (m, m_start m') # spans (length text) (m' # ms)"
    by (simp only: 3)
  finally show ?case by simp
qed

text \<open>What the scanner guarantees of its matches, \<open>s\<close> being the text from offset \<open>pos\<close> on.\<close>

lemma finditer_from_props:
  "m \<in> set (finditer_from pos s) \<Longrightarrow>
     pos \<le> m_start m \<and> m_end m = m_start m + length (m_group1 m) + 2
     \<and> m_end m \<le> pos + length s
     \<and> take (length (m_group1 m) + 2) (drop (m_start m - pos) s)
         = CHR ''['' # m_group1 m @ [CHR '']'']"
proof (induction pos s rule: finditer_from.induct)
  case (1 pos)
  then show ?case by simp
next
  case (2 pos c cs)
  show ?case
  proof (cases "speaker_match (c # cs)")
    case None
    with 2 have m: "m \<in> set (finditer_from (pos + 1) cs)" by simp
    from "2.IH"(1) [OF None m] have ih: "pos + 1 \<le> m_start m"
      "m_end m = m_start m + length (m_group1 m) + 2" "m_end m \<le> pos + 1 + length cs"
      "take (length (m_group1 m) + 2) (drop (m_start m - (pos + 1)) cs)
         = CHR ''['' # m_group1 m @ [CHR '']'']" by auto
    from ih(1) have "m_start m - pos = Suc (m_start m - (pos + 1))" by simp
    then have "drop (m_start m - pos) (c # cs) = drop (m_start m - (pos + 1)) cs" by simp
    with ih show ?thesis by simp
  next
    case (Some a)
    obtain inner rest where a: "a = (inner, rest)" by (cases a)
    from speaker_match_SomeD [OF Some [unfolded a]]
    have s: "c # cs = CHR ''['' # inner @ CHR '']'' # rest" by simp
    from 2(3) Some a have
      "m = \<lparr>m_start = pos, m_end = pos + length inner + 2, m_group1 = inner\<rparr>
       \<or> m \<in> set (finditer_from (pos + length inner + 2) rest)" by simp
    then show ?thesis
    proof
      assume "m = \<lparr>m_start = pos, m_end = pos + length inner + 2, m_group1 = inner\<rparr>"
      then show ?thesis using s by simp
    next
      assume m: "m \<in> set (finditer_from (pos + length inner + 2) rest)"
      from "2.IH"(2) [OF Some [unfolded a] refl m]
      have ih: "pos + length inner + 2 \<le> m_start m"
        "m_end m = m_start m + length (m_group1 m) + 2"
        "m_end m \<le> pos + length inner + 2 + length rest"
        "take (length (m_group1 m) + 2) (drop (m_start m - (pos + length inner + 2)) rest)
           = CHR ''['' # m_group1 m @ [CHR '']'']" by auto
      have l: "length (c # cs) = length inner + 2 + length rest" unfolding s by simp
      have "c # cs = (CHR ''['' # inner @ [CHR '']'']) @ rest" unfolding s by simp
      moreover have "m_start m - pos
          = length (CHR ''['' # inner @ [CHR '']'']) + (m_start m - (pos + length inner + 2))"
        using ih(1) by simp
      ultimately have "drop (m_start m - pos) (c # cs)
          = drop (m_start m - (pos + length inner + 2)) rest"
        by (simp only: drop_append) simp
      with ih l show ?thesis by simp
    qed
  qed
qed

lemma finditer_from_sorted:
  "sorted_wrt (\<lambda>a b. m_end a \<le> m_start b) (finditer_from pos s)"
proof (induction pos s rule: finditer_from.induct)
  case (1 pos)
  show ?case by simp
next
  case (2 pos c cs)
  show ?case
  proof (cases "speaker_match (c # cs)")
    case None
    with 2 show ?thesis by simp
  next
    case (Some a)
    obtain inner rest where a: "a = (inner, rest)" by (cases a)
    have "\<forall>m\<in>set (finditer_from (pos + length inner + 2) rest). pos + length inner + 2 \<le> m_start m"
      using finditer_from_props by blast
    moreover have "sorted_wrt (\<lambda>a b. m_end a \<le> m_start b)
        (finditer_from (pos + length inner + 2) rest)"
      using "2.IH"(2) [OF Some [unfolded a] refl] .
    ultimately show ?thesis using Some a by simp
  qed
qed

lemma slice_drop: "a \<le> b \<Longrightarrow> slice s a b @ drop b s = drop a s"
proof -
  assume "a \<le> b"
  then have "drop b s = drop (b - a) (drop a s)" by simp
  then show ?thesis unfolding slice_def by (simp only: append_take_drop_id)
qed

lemma spans_fst: "(x, e) \<in> set (spans len ms) \<Longrightarrow> x \<in> set ms"
  by (induction len ms rule: spans.induct) auto

lemma spans_concat:
  assumes "sorted_wrt (\<lambda>a b. m_end a \<le> m_start b) (m # ms)"
    and "\<forall>x\<in>set (m # ms). m_start x \<le> m_end x \<and> m_end x \<le> length text"
  shows "concat (map (\<lambda>(x, e). slice text (m_start x) (m_end x) @ slice text (m_end x) e)
           (spans (length text) (m # ms))) = drop (m_start m) text"
  using assms
proof (induction ms arbitrary: m)
  case Nil
  then have "m_start m \<le> m_end m" "m_end m \<le> length text" by auto
  then have "slice text (m_start m) (m_end m) @ slice text (m_end m) (length text)
      = slice text (m_start m) (length text)" by (rule slice_append)
  then show ?case by (simp add: slice_to_end)
next
  case (Cons m' ms)
  from Cons.prems have o: "m_start m \<le> m_end m" "m_end m \<le> m_start m'" by auto
  from Cons.prems have "sorted_wrt (\<lambda>a b. m_end a \<le> m_start b) (m' # ms)"
    and "\<forall>x\<in>set (m' # ms). m_start x \<le> m_end x \<and> m_end x \<le> length text" by auto
  then have ih: "concat (map (\<lambda>(x, e). slice text (m_start x) (m_end x) @ slice text (m_end x) e)
           (spans (length text) (m' # ms))) = drop (m_start m') text"
    by (rule Cons.IH)
  have "slice text (m_start m) (m_end m) @ slice text (m_end m) (m_start m')
      = slice text (m_start m) (m_start m')" using o by (rule slice_append)
  moreover have "slice text (m_start m) (m_start m') @ drop (m_start m') text
      = drop (m_start m) text" using o by (intro slice_drop) simp
  ultimately show ?case using ih by simp
qed

lemma finditer_props:
  assumes "m \<in> set (finditer text)"
  shows "m_start m < m_end m" and "m_end m \<le> length text"
    and "slice text (m_start m) (m_end m) = ''['' @ m_group1 m @ '']''"
proof -
  from assms have m: "m \<in> set (finditer_from 0 text)" by (simp add: finditer_def)
  from finditer_from_props [OF m] have e: "m_end m = m_start m + length (m_group1 m) + 2"
    and l: "m_end m \<le> length text"
    and t: "take (length (m_group1 m) + 2) (drop (m_start m) text)
         = CHR ''['' # m_group1 m @ [CHR '']'']" by auto
  show "m_start m < m_end m" using e by simp
  show "m_end m \<le> length text" using l by simp
  have "m_end m - m_start m = length (m_group1 m) + 2" using e by simp
  then show "slice text (m_start m) (m_end m) = ''['' @ m_group1 m @ '']''"
    using t by (simp add: slice_def)
qed

lemma finditer_sorted: "sorted_wrt (\<lambda>a b. m_end a \<le> m_start b) (finditer text)"
  by (simp add: finditer_def finditer_from_sorted)

lemma seg_end_bounds:
  assumes "i < length (finditer text)"
  shows "m_end (finditer text ! i) \<le> seg_end text (finditer text) i"
    and "seg_end text (finditer text) i \<le> length text"
proof -
  let ?ms = "finditer text"
  show "m_end (?ms ! i) \<le> seg_end text ?ms i"
  proof (cases "i + 1 < length ?ms")
    case True
    then have "m_end (?ms ! i) \<le> m_start (?ms ! (i + 1))"
      using finditer_sorted [of "text"] by (simp add: sorted_wrt_iff_nth_less)
    with True show ?thesis by (simp add: seg_end_def)
  next
    case False
    then show ?thesis using finditer_props(2) [of "?ms ! i" "text"] assms
      by (simp add: seg_end_def)
  qed
  show "seg_end text ?ms i \<le> length text"
  proof (cases "i + 1 < length ?ms")
    case True
    then have "?ms ! (i + 1) \<in> set ?ms" by (intro nth_mem)
    from finditer_props(1,2) [OF this] True show ?thesis by (simp add: seg_end_def)
  next
    case False
    then show ?thesis by (simp add: seg_end_def)
  qed
qed

lemma finditer_rebuild:
  assumes "finditer text \<noteq> []"
  shows "text = take (m_start (finditer text ! 0)) text
           @ concat (map (\<lambda>i. ''['' @ m_group1 (finditer text ! i) @ '']''
                              @ raw_span text (finditer text) i)
                      [0..<length (finditer text)])"
proof -
  let ?ms = "finditer text"
  let ?h = "\<lambda>(x, e). slice text (m_start x) (m_end x) @ slice text (m_end x) e"
  from assms obtain m ms where ms: "?ms = m # ms" by (cases ?ms) auto
  have b: "\<forall>x\<in>set (m # ms). m_start x \<le> m_end x \<and> m_end x \<le> length text"
    using finditer_props(1,2) [of _ "text"] unfolding ms [symmetric] by (auto intro: less_imp_le)
  have so: "sorted_wrt (\<lambda>a b. m_end a \<le> m_start b) (m # ms)"
    using finditer_sorted [of "text"] ms by simp
  have "map (\<lambda>i. ''['' @ m_group1 (?ms ! i) @ '']'' @ raw_span text ?ms i) [0..<length ?ms]
      = map (\<lambda>i. ?h (?ms ! i, seg_end text ?ms i)) [0..<length ?ms]"
  proof (rule map_cong [OF refl])
    fix i assume "i \<in> set [0..<length ?ms]"
    then have "?ms ! i \<in> set ?ms" by simp
    from finditer_props(3) [OF this]
    show "''['' @ m_group1 (?ms ! i) @ '']'' @ raw_span text ?ms i = ?h (?ms ! i, seg_end text ?ms i)"
      by (simp add: raw_span_def)
  qed
  also have "\<dots> = map ?h (map (\<lambda>i. (?ms ! i, seg_end text ?ms i)) [0..<length ?ms])"
    by (simp add: comp_def)
  also have "\<dots> = map ?h (spans (length text) ?ms)"
    by (simp only: index_spans)
  finally have "concat (map (\<lambda>i. ''['' @ m_group1 (?ms ! i) @ '']'' @ raw_span text ?ms i)
        [0..<length ?ms]) = concat (map ?h (spans (length text) (m # ms)))"
    by (simp only: ms)
  also have "\<dots> = drop (m_start m) text" using so b by (rule spans_concat)
  finally show ?thesis using ms by simp
qed

text \<open>
  Claim C1, as stated: the annotations and the segment texts, put end to end, give the
  rewritten text back. They do not: \<open>parse_segments\<close> trims every segment text. The text
  "[A] x" is rewritten to itself with a final newline; its one segment has the text "x",
  and "[A]" followed by "x" is not the rewritten text.
\<close>

theorem segments_rebuild_text_counterexample:
  "normalize_file_text ''[A] x'' = ''[A] x'' @ [NL]
   \<and> map m_group1 (finditer (''[A] x'' @ [NL])) = [''A'']
   \<and> parse_segments (''[A] x'' @ [NL]) = [([''A''], ''x'')]
   \<and> ''[A]'' @ ''x'' \<noteq> ''[A] x'' @ [NL]"
  by code_simp

text \<open>
  Claim C1, amended. For every text given to \<open>parse_segments\<close> (the rewritten texts among
  them), with \<open>ms\<close> the annotations the scanner finds: every annotation is a non-empty
  span of the text that reads as its bracketed inner text; the annotations are in
  document order and do not overlap, and the span of segment \<open>i\<close> lies between the end
  of annotation \<open>i\<close> and the start of the next one (or the end of the text); there is one
  segment for each annotation, its text being that span trimmed; and the text before the
  first annotation, followed by every annotation and the untrimmed span after it, is the
  text.
\<close>

theorem segments_cover_text:
  assumes "ms = finditer text"
  shows "(\<forall>i<length ms.
            m_start (ms ! i) < m_end (ms ! i)
            \<and> slice text (m_start (ms ! i)) (m_end (ms ! i)) = ''['' @ m_group1 (ms ! i) @ '']''
            \<and> m_end (ms ! i) \<le> seg_end text ms i \<and> seg_end text ms i \<le> length text
            \<and> (i + 1 < length ms \<longrightarrow> seg_end text ms i = m_start (ms ! (i + 1))))
       \<and> (ms \<noteq> [] \<longrightarrow>
            length (parse_segments text) = length ms
            \<and> (\<forall>i<length ms. snd (parse_segments text ! i) = strip (raw_span text ms i))
            \<and> text = take (m_start (ms ! 0)) text
                 @ concat (map (\<lambda>i. ''['' @ m_group1 (ms ! i) @ '']'' @ raw_span text ms i)
                            [0..<length ms]))"
proof (intro conjI allI impI)
  fix i assume i: "i < length ms"
  then have m: "ms ! i \<in> set (finditer text)" using assms by simp
  show "m_start (ms ! i) < m_end (ms ! i)" using m by (rule finditer_props(1))
  show "slice text (m_start (ms ! i)) (m_end (ms ! i)) = ''['' @ m_group1 (ms ! i) @ '']''"
    using m by (rule finditer_props(3))
  show "m_end (ms ! i) \<le> seg_end text ms i"
    using seg_end_bounds(1) [of i "text"] i assms by simp
  show "seg_end text ms i \<le> length text"
    using seg_end_bounds(2) [of i "text"] i assms by simp
next
  fix i assume "i < length ms" and "i + 1 < length ms"
  then show "seg_end text ms i = m_start (ms ! (i + 1))" by (simp add: seg_end_def)
next
  assume "ms \<noteq> []"
  then show "length (parse_segments text) = length ms"
    using assms by (simp add: parse_segments_def Let_def)
next
  fix i assume "ms \<noteq> []" and "i < length ms"
  then show "snd (parse_segments text ! i) = strip (raw_span text ms i)"
    using assms by (simp add: parse_segments_def Let_def raw_span_def)
next
  assume "ms \<noteq> []"
  then show "text = take (m_start (ms ! 0)) text
      @ concat (map (\<lambda>i. ''['' @ m_group1 (ms ! i) @ '']'' @ raw_span text ms i) [0..<length ms])"
    using finditer_rebuild [of "text"] assms by simp
qed

theorem segments_cover_text_witness:
  "map (\<lambda>m. (m_start m, m_end m)) (finditer ''intro [A] x [B, C] y '') = [(6, 9), (12, 18)]
   \<and> parse_segments ''intro [A] x [B, C] y '' = [([''A''], ''x''), ([''B'', ''C''], ''y'')]
   \<and> ''intro [A] x [B, C] y ''
       = take (m_start (finditer ''intro [A] x [B, C] y '' ! 0)) ''intro [A] x [B, C] y ''
         @ concat (map (\<lambda>i. ''['' @ m_group1 (finditer ''intro [A] x [B, C] y '' ! i) @ '']''
                            @ raw_span ''intro [A] x [B, C] y ''
                                (finditer ''intro [A] x [B, C] y '') i)
                    [0..<length (finditer ''intro [A] x [B, C] y '')])"
proof -
  have a: "map (\<lambda>m. (m_start m, m_end m)) (finditer ''intro [A] x [B, C] y '')
      = [(6, 9), (12, 18)]" by code_simp
  have b: "parse_segments ''intro [A] x [B, C] y '' = [([''A''], ''x''), ([''B'', ''C''], ''y'')]"
    by code_simp
  from a have n: "finditer ''intro [A] x [B, C] y '' \<noteq> []" by auto
  from segments_cover_text [OF refl, of "''intro [A] x [B, C] y ''"] n
  have "''intro [A] x [B, C] y ''
       = take (m_start (finditer ''intro [A] x [B, C] y '' ! 0)) ''intro [A] x [B, C] y ''
         @ concat (map (\<lambda>i. ''['' @ m_group1 (finditer ''intro [A] x [B, C] y '' ! i) @ '']''
                            @ raw_span ''intro [A] x [B, C] y ''
                                (finditer ''intro [A] x [B, C] y '') i)
                    [0..<length (finditer ''intro [A] x [B, C] y '')])"
    by blast
  with a b show ?thesis by blast
qed

section \<open>The per-character dictionary\<close>

lemma dict_append_keys:
  "map fst (dict_append d k v) = (if k \<in> fst ` set d then map fst d else map fst d @ [k])"
proof -
  have "map fst (map (\<lambda>(k', vs). if k' = k then (k', vs @ [v]) else (k', vs)) d) = map fst d"
    by (induction d) auto
  then show ?thesis by (simp add: dict_append_def)
qed

lemma dict_append_distinct:
  "distinct (map fst d) \<Longrightarrow> distinct (map fst (dict_append d k v))"
  by (auto simp: dict_append_keys)

lemma dict_append_key_set: "fst ` set (dict_append d k v) = insert k (fst ` set d)"
proof -
  have "set (map fst (dict_append d k v)) = insert k (set (map fst d))"
    unfolding dict_append_keys by auto
  then show ?thesis by simp
qed

lemma map_of_update_in:
  "map_of (map (\<lambda>(k', vs). if k' = k then (k', vs @ [v]) else (k', vs)) d) k'
     = (if k' = k then map_option (\<lambda>vs. vs @ [v]) (map_of d k') else map_of d k')"
  by (induction d) auto

lemma dict_append_values:
  "values_of (dict_append d k v) k' = (if k' = k then values_of d k @ [v] else values_of d k')"
proof (cases "k \<in> fst ` set d")
  case True
  then obtain vs where "map_of d k = Some vs"
    by (metis domD dom_map_of_conv_image_fst)
  with True show ?thesis
    by (simp add: dict_append_def values_of_def map_of_update_in)
next
  case False
  then have "map_of d k = None" by (simp add: map_of_eq_None_iff)
  with False show ?thesis
    by (auto simp: dict_append_def values_of_def map_add_def split: option.splits)
qed

lemma dict_append_nonempty:
  "\<forall>(k, vs)\<in>set d. vs \<noteq> [] \<Longrightarrow> \<forall>(k, vs)\<in>set (dict_append d key v). vs \<noteq> []"
  by (auto simp: dict_append_def split: if_splits)

lemma speakers_fold:
  "values_of (foldl (\<lambda>d s. dict_append d (title s) c) d sp) k
      = values_of d k @ map (\<lambda>s. c) (filter (\<lambda>s. title s = k) sp)
   \<and> fst ` set (foldl (\<lambda>d s. dict_append d (title s) c) d sp) = fst ` set d \<union> title ` set sp
   \<and> (distinct (map fst d) \<longrightarrow> distinct (map fst (foldl (\<lambda>d s. dict_append d (title s) c) d sp)))"
proof (induction sp arbitrary: d)
  case Nil
  show ?case by simp
next
  case (Cons s sp)
  show ?case
    unfolding foldl_Cons
    using Cons [of "dict_append d (title s) c"]
    by (auto simp: dict_append_values dict_append_key_set dict_append_distinct)
qed

lemma aggregate_seg_step: "aggregate_by_char segs = foldl seg_step [] segs"
proof -
  have "seg_step = (\<lambda>by_char (speakers, content).
              if content = [] then by_char
              else foldl (\<lambda>d s. dict_append d (title s) content) by_char speakers)"
    by (intro ext) (simp add: seg_step_def split: prod.splits)
  then show ?thesis by (simp add: aggregate_by_char_def)
qed

lemma seg_step_props:
  "values_of (seg_step d seg) k = values_of d k @ contents_for k [seg]
   \<and> fst ` set (seg_step d seg)
       = fst ` set d \<union> {title s |s. snd seg \<noteq> [] \<and> s \<in> set (fst seg)}
   \<and> (distinct (map fst d) \<longrightarrow> distinct (map fst (seg_step d seg)))"
proof (cases seg)
  case (Pair sp c)
  show ?thesis
  proof (cases "c = []")
    case True
    with Pair show ?thesis by (simp add: seg_step_def contents_for_def)
  next
    case False
    with Pair speakers_fold [of c d sp k] show ?thesis
      by (auto simp: seg_step_def contents_for_def)
  qed
qed

lemma contents_for_append:
  "contents_for k (xs @ ys) = contents_for k xs @ contents_for k ys"
  by (simp add: contents_for_def)

lemma segments_fold:
  "values_of (foldl seg_step d segs) k = values_of d k @ contents_for k segs
   \<and> fst ` set (foldl seg_step d segs)
       = fst ` set d \<union> {title s |s sp c. (sp, c) \<in> set segs \<and> c \<noteq> [] \<and> s \<in> set sp}
   \<and> (distinct (map fst d) \<longrightarrow> distinct (map fst (foldl seg_step d segs)))"
proof (induction segs arbitrary: d)
  case Nil
  show ?case by (simp add: contents_for_def)
next
  case (Cons seg segs)
  have c: "contents_for k (seg # segs) = contents_for k [seg] @ contents_for k segs"
    using contents_for_append [of k "[seg]" segs] by simp
  have s: "{title s |s sp c. (sp, c) \<in> set (seg # segs) \<and> c \<noteq> [] \<and> s \<in> set sp}
      = {title s |s. snd seg \<noteq> [] \<and> s \<in> set (fst seg)}
        \<union> {title s |s sp c. (sp, c) \<in> set segs \<and> c \<noteq> [] \<and> s \<in> set sp}"
  proof (cases seg)
    case (Pair a b)
    show ?thesis unfolding Pair by (intro set_eqI iffI; simp; blast)
  qed
  from Cons [of "seg_step d seg"] seg_step_props [of d seg k]
  show ?case unfolding foldl_Cons c s by (simp add: Un_assoc)
qed

lemma aggregate_props:
  "distinct (map fst (aggregate_by_char segs))"
  "fst ` set (aggregate_by_char segs)
     = {title s |s sp c. (sp, c) \<in> set segs \<and> c \<noteq> [] \<and> s \<in> set sp}"
  "(k, vs) \<in> set (aggregate_by_char segs) \<Longrightarrow> vs = contents_for k segs"
proof -
  from segments_fold [of "[]" segs]
  show d: "distinct (map fst (aggregate_by_char segs))"
    and "fst ` set (aggregate_by_char segs)
     = {title s |s sp c. (sp, c) \<in> set segs \<and> c \<noteq> [] \<and> s \<in> set sp}"
    by (simp_all add: aggregate_seg_step)
  assume "(k, vs) \<in> set (aggregate_by_char segs)"
  with d have "map_of (aggregate_by_char segs) k = Some vs" by simp
  then have "values_of (aggregate_by_char segs) k = vs" by (simp add: values_of_def)
  moreover from segments_fold [of "[]" segs k]
  have "values_of (aggregate_by_char segs) k = contents_for k segs"
    by (simp add: aggregate_seg_step values_of_def)
  ultimately show "vs = contents_for k segs" by simp
qed

lemma contents_for_nonempty: "[] \<notin> set (contents_for k segs)"
  by (auto simp: contents_for_def split: if_splits)

lemma contents_for_empty_iff:
  "contents_for k segs = [] \<longleftrightarrow>
     k \<notin> {title s |s sp c. (sp, c) \<in> set segs \<and> c \<noteq> [] \<and> s \<in> set sp}"
proof -
  have "contents_for k segs = [] \<longleftrightarrow>
      (\<forall>x\<in>set segs. snd x = [] \<or> (\<forall>s\<in>set (fst x). title s \<noteq> k))"
  proof (induction segs)
    case Nil
    show ?case by (simp add: contents_for_def)
  next
    case (Cons x segs)
    have "contents_for k (x # segs) = contents_for k [x] @ contents_for k segs"
      using contents_for_append [of k "[x]" segs] by simp
    moreover have "contents_for k [x] = [] \<longleftrightarrow>
        snd x = [] \<or> (\<forall>s\<in>set (fst x). title s \<noteq> k)"
      by (cases x) (auto simp: contents_for_def filter_empty_conv)
    ultimately show ?case using Cons by simp
  qed
  also have "\<dots> \<longleftrightarrow> k \<notin> {title s |s sp c. (sp, c) \<in> set segs \<and> c \<noteq> [] \<and> s \<in> set sp}"
    by force
  finally show ?thesis .
qed

section \<open>Trimming\<close>

lemma lstrip_hd: "lstrip s \<noteq> [] \<Longrightarrow> \<not> is_space (hd (lstrip s))"
  by (simp add: lstrip_def hd_dropWhile)

lemma rstrip_last: "rstrip s \<noteq> [] \<Longrightarrow> \<not> is_space (last (rstrip s))"
  by (simp add: rstrip_def last_rev hd_dropWhile)

lemma lstrip_id: "s = [] \<or> \<not> is_space (hd s) \<Longrightarrow> lstrip s = s"
  by (cases s) (auto simp: lstrip_def)

lemma rstrip_id: "s = [] \<or> \<not> is_space (last s) \<Longrightarrow> rstrip s = s"
  by (cases s rule: rev_cases) (auto simp: rstrip_def)

lemma rstrip_prefix: "s = rstrip s @ rev (takeWhile is_space (rev s))"
proof -
  have "rev (dropWhile is_space (rev s)) @ rev (takeWhile is_space (rev s))
      = rev (takeWhile is_space (rev s) @ dropWhile is_space (rev s))"
    by (simp only: rev_append)
  also have "\<dots> = rev (rev s)" by (simp only: takeWhile_dropWhile_id)
  finally show ?thesis by (simp add: rstrip_def)
qed

lemma rstrip_hd: "rstrip s \<noteq> [] \<Longrightarrow> hd (rstrip s) = hd s"
proof -
  assume n: "rstrip s \<noteq> []"
  have "hd s = hd (rstrip s @ rev (takeWhile is_space (rev s)))"
    using rstrip_prefix [of s] by simp
  also have "\<dots> = hd (rstrip s)" using n by simp
  finally show ?thesis by simp
qed

lemma rstrip_Nil: "rstrip [] = []"
  by (simp add: rstrip_def)

lemma strip_ends:
  "strip s = [] \<or> (\<not> is_space (hd (strip s)) \<and> \<not> is_space (last (strip s)))"
proof (cases "strip s = []")
  case True
  then show ?thesis by simp
next
  case False
  then have n: "rstrip (lstrip s) \<noteq> []" by (simp add: strip_def)
  then have l: "lstrip s \<noteq> []" by (auto simp: rstrip_Nil)
  have "hd (strip s) = hd (lstrip s)" unfolding strip_def using n by (rule rstrip_hd)
  with lstrip_hd [OF l] have "\<not> is_space (hd (strip s))" by simp
  moreover have "\<not> is_space (last (strip s))" unfolding strip_def using n by (rule rstrip_last)
  ultimately show ?thesis by simp
qed

lemma strip_id:
  "s = [] \<or> (\<not> is_space (hd s) \<and> \<not> is_space (last s)) \<Longrightarrow> strip s = s"
proof -
  assume a: "s = [] \<or> (\<not> is_space (hd s) \<and> \<not> is_space (last s))"
  then have "lstrip s = s" by (intro lstrip_id) blast
  moreover from a have "rstrip s = s" by (intro rstrip_id) blast
  ultimately show ?thesis by (simp add: strip_def)
qed

lemma strip_idem: "strip (strip s) = strip s"
  using strip_ends [of s] by (rule strip_id)

lemma parse_segments_trimmed:
  "(sp, c) \<in> set (parse_segments text) \<Longrightarrow> strip c = c"
  by (auto simp: parse_segments_def Let_def strip_idem split: if_splits)

lemma segments_same_texts:
  "map snd (segments_from_text text) = map snd (parse_segments text)"
  by (simp add: segments_from_text_def parse_segments_def Let_def comp_def)

section \<open>The two aggregations\<close>

text \<open>
  Claim C9. With \<open>segs\<close> the segments of a text, whose texts are trimmed: the per-character
  aggregation has one entry for each title-cased speaker name that speaks in some segment
  whose text is not empty after trimming, and for no other name; the texts of an entry are
  those of the non-empty segments of that speaker, in order, so that a segment with an
  empty text adds nothing and a speaker with only such segments has no row. The per-segment
  rows are one for each segment, with its text, empty or not.
\<close>

theorem per_character_skips_empty_segments:
  assumes "segs = parse_segments text"
  shows "(\<forall>(speakers, content)\<in>set segs. strip content = content)
       \<and> distinct (map fst (aggregate_by_char segs))
       \<and> fst ` set (aggregate_by_char segs)
           = {title s |s speakers content.
                (speakers, content) \<in> set segs \<and> strip content \<noteq> [] \<and> s \<in> set speakers}
       \<and> (\<forall>(character, texts)\<in>set (aggregate_by_char segs).
             texts = contents_for character segs \<and> texts \<noteq> [] \<and> [] \<notin> set texts)
       \<and> character_rows saga song segs
           = map (\<lambda>(character, texts). (saga, song, character, join [NL, NL] texts))
               (aggregate_by_char segs)
       \<and> length (segment_rows saga song text) = length segs
       \<and> map (\<lambda>(sa, so, ch, lyrics). lyrics) (segment_rows saga song text) = map snd segs"
proof (intro conjI)
  show t: "\<forall>(speakers, content)\<in>set segs. strip content = content"
    using assms parse_segments_trimmed by auto
  show "distinct (map fst (aggregate_by_char segs))" by (rule aggregate_props(1))
  have "{title s |s sp c. (sp, c) \<in> set segs \<and> c \<noteq> [] \<and> s \<in> set sp}
      = {title s |s sp c. (sp, c) \<in> set segs \<and> strip c \<noteq> [] \<and> s \<in> set sp}"
    using t by (intro Collect_cong) (metis (mono_tags, lifting) case_prodD)
  then show "fst ` set (aggregate_by_char segs)
           = {title s |s speakers content.
                (speakers, content) \<in> set segs \<and> strip content \<noteq> [] \<and> s \<in> set speakers}"
    by (simp only: aggregate_props(2))
  show "\<forall>(character, texts)\<in>set (aggregate_by_char segs).
             texts = contents_for character segs \<and> texts \<noteq> [] \<and> [] \<notin> set texts"
  proof (intro ballI, clarify)
    fix k vs assume m: "(k, vs) \<in> set (aggregate_by_char segs)"
    then have v: "vs = contents_for k segs" by (rule aggregate_props(3))
    from m have "k \<in> fst ` set (aggregate_by_char segs)" by force
    then have "k \<in> {title s |s sp c. (sp, c) \<in> set segs \<and> c \<noteq> [] \<and> s \<in> set sp}"
      by (simp only: aggregate_props(2))
    then have "contents_for k segs \<noteq> []" by (simp only: contents_for_empty_iff) simp
    with v show "vs = contents_for k segs \<and> vs \<noteq> [] \<and> [] \<notin> set vs"
      using contents_for_nonempty [of k segs] by simp
  qed
  show "character_rows saga song segs
           = map (\<lambda>(character, texts). (saga, song, character, join [NL, NL] texts))
               (aggregate_by_char segs)"
    by (simp add: character_rows_def)
  have "map (\<lambda>(sa, so, ch, lyrics). lyrics) (segment_rows saga song text)
      = map snd (segments_from_text text)"
    by (simp add: segment_rows_def comp_def case_prod_beta)
  then show l: "map (\<lambda>(sa, so, ch, lyrics). lyrics) (segment_rows saga song text) = map snd segs"
    using assms by (simp only: segments_same_texts)
  have "length (segment_rows saga song text)
      = length (map (\<lambda>(sa, so, ch, lyrics). lyrics) (segment_rows saga song text))" by simp
  also have "\<dots> = length (map snd segs)" by (simp only: l)
  finally show "length (segment_rows saga song text) = length segs" by simp
qed

theorem per_character_skips_empty_segments_witness:
  "parse_segments ''[A] [B] x [a]'' = [([''A''], []), ([''B''], ''x''), ([''a''], [])]
   \<and> character_rows ''s'' ''t'' (parse_segments ''[A] [B] x [a]'') = [(''s'', ''t'', ''B'', ''x'')]
   \<and> segment_rows ''s'' ''t'' ''[A] [B] x [a]''
       = [(''s'', ''t'', ''A'', []), (''s'', ''t'', ''B'', ''x''), (''s'', ''t'', ''a'', [])]
   \<and> fst ` set (aggregate_by_char (parse_segments ''[A] [B] x [a]''))
       = {title s |s speakers content.
            (speakers, content) \<in> set (parse_segments ''[A] [B] x [a]'')
            \<and> strip content \<noteq> [] \<and> s \<in> set speakers}
   \<and> length (segment_rows ''s'' ''t'' ''[A] [B] x [a]'')
       = length (parse_segments ''[A] [B] x [a]'')"
proof -
  have a: "parse_segments ''[A] [B] x [a]'' = [([''A''], []), ([''B''], ''x''), ([''a''], [])]"
    by code_simp
  have b: "character_rows ''s'' ''t'' (parse_segments ''[A] [B] x [a]'')
      = [(''s'', ''t'', ''B'', ''x'')]" by code_simp
  have c: "segment_rows ''s'' ''t'' ''[A] [B] x [a]''
       = [(''s'', ''t'', ''A'', []), (''s'', ''t'', ''B'', ''x''), (''s'', ''t'', ''a'', [])]"
    by code_simp
  from per_character_skips_empty_segments [OF refl, of "''[A] [B] x [a]''" "''s''" "''t''"]
  have "fst ` set (aggregate_by_char (parse_segments ''[A] [B] x [a]''))
       = {title s |s speakers content.
            (speakers, content) \<in> set (parse_segments ''[A] [B] x [a]'')
            \<and> strip content \<noteq> [] \<and> s \<in> set speakers}"
    and "length (segment_rows ''s'' ''t'' ''[A] [B] x [a]'')
       = length (parse_segments ''[A] [B] x [a]'')"
    by blast+
  with a b c show ?thesis by blast
qed

section \<open>Idempotence of the whitespace normalizer\<close>

subsection \<open>Carriage returns\<close>

lemma replace_crlf_id: "CR \<notin> set v \<Longrightarrow> replace_crlf v = v"
  by (induction v rule: replace_crlf.induct) auto

lemma replace_cr_id: "CR \<notin> set v \<Longrightarrow> replace_cr v = v"
  unfolding replace_cr_def by (intro map_idI) auto

lemma replace_cr_no_cr: "CR \<notin> set (replace_cr s)"
  by (auto simp: replace_cr_def)

subsection \<open>Lines\<close>

lemma split_chr_no_sep: "d \<notin> set l \<Longrightarrow> split_chr d l = [l]"
  by (induction l) auto

lemma split_chr_line: "d \<notin> set l \<Longrightarrow> split_chr d (l @ d # r) = l # split_chr d r"
  by (induction l) auto

lemma line_induct [case_names line more]:
  assumes "\<And>l. d \<notin> set l \<Longrightarrow> P l"
    and "\<And>l r. d \<notin> set l \<Longrightarrow> P r \<Longrightarrow> P (l @ d # r)"
  shows "P v"
proof (induction v rule: length_induct)
  case (1 v)
  let ?l = "takeWhile (\<lambda>x. x \<noteq> d) v" and ?r = "dropWhile (\<lambda>x. x \<noteq> d) v"
  have l: "d \<notin> set ?l" by (auto dest: set_takeWhileD)
  show ?case
  proof (cases ?r)
    case Nil
    have "?l @ ?r = v" by (rule takeWhile_dropWhile_id)
    with Nil have "v = ?l" by (metis append_Nil2)
    with assms(1) [OF l] show ?thesis by simp
  next
    case (Cons x r)
    then have "x = d" using hd_dropWhile [of "\<lambda>x. x \<noteq> d" v] by auto
    have "?l @ ?r = v" by (rule takeWhile_dropWhile_id)
    then have v: "?l @ d # r = v" unfolding Cons \<open>x = d\<close> .
    have "length (?l @ d # r) = length ?l + Suc (length r)"
      by (simp only: length_append length_Cons)
    then have "length v = length ?l + Suc (length r)" by (simp only: v)
    then have "length r < length v" by linarith
    with 1 have "P r" by blast
    with l have "P (?l @ d # r)" by (rule assms(2))
    then show ?thesis by (simp only: v)
  qed
qed

lemma split_chr_ne: "split_chr d v \<noteq> []"
  by (induction v) (auto split: list.splits)

lemma join_Cons: "xs \<noteq> [] \<Longrightarrow> join sep (x # xs) = x @ sep @ join sep xs"
  by (cases xs) auto

subsection \<open>Runs of blanks\<close>

lemma two_run: "2 \<le> length (takeWhile P (c # cs)) \<longleftrightarrow> P c \<and> cs \<noteq> [] \<and> P (hd cs)"
  by (cases cs) auto

lemma sub_runs_run:
  assumes "P c \<and> k \<le> length (takeWhile P (c # cs))"
  shows "sub_runs P k rep (c # cs) = rep @ sub_runs P k rep (dropWhile P cs)"
  by (subst sub_runs.simps(2)) (rule if_P [OF assms])

lemma sub_runs_skip:
  assumes "\<not> (P c \<and> k \<le> length (takeWhile P (c # cs)))"
  shows "sub_runs P k rep (c # cs) = c # sub_runs P k rep cs"
  by (subst sub_runs.simps(2)) (rule if_not_P [OF assms])

lemma sub_runs_set: "set (sub_runs P k rep s) \<subseteq> set s \<union> set rep"
proof (induction P k rep s rule: sub_runs.induct)
  case (1 P k rep)
  show ?case by simp
next
  case (2 P k rep c cs)
  show ?case
  proof (cases "P c \<and> k \<le> length (takeWhile P (c # cs))")
    case True
    with 2(1) have "set (sub_runs P k rep (dropWhile P cs)) \<subseteq> set (dropWhile P cs) \<union> set rep"
      by blast
    moreover have "set (dropWhile P cs) \<subseteq> set cs" by (auto dest: set_dropWhileD)
    ultimately show ?thesis using True by (subst sub_runs.simps(2)) auto
  next
    case False
    with 2(2) have "set (sub_runs P k rep cs) \<subseteq> set cs \<union> set rep" by blast
    then show ?thesis using False by (subst sub_runs.simps(2)) auto
  qed
qed

lemma collapse_fixed:
  "successively (\<lambda>x y. \<not> (is_blank x \<and> is_blank y)) l \<Longrightarrow> sub_runs is_blank 2 [SPC] l = l"
proof (induction l)
  case Nil
  show ?case by simp
next
  case (Cons c cs)
  from Cons.prems have s: "successively (\<lambda>x y. \<not> (is_blank x \<and> is_blank y)) cs"
    and h: "cs = [] \<or> \<not> (is_blank c \<and> is_blank (hd cs))"
    by (auto simp: successively_Cons)
  from h have "\<not> (is_blank c \<and> 2 \<le> length (takeWhile is_blank (c # cs)))"
    unfolding two_run by auto
  then have "sub_runs is_blank 2 [SPC] (c # cs) = c # sub_runs is_blank 2 [SPC] cs"
    by (subst sub_runs.simps(2)) (simp only: if_False)
  with Cons.IH [OF s] show ?case by simp
qed

lemma collapse_hd:
  "cs \<noteq> [] \<Longrightarrow> \<not> is_blank (hd cs) \<Longrightarrow>
     sub_runs is_blank 2 [SPC] cs \<noteq> [] \<and> hd (sub_runs is_blank 2 [SPC] cs) = hd cs"
  by (cases cs) auto

lemma collapse_hd_not:
  "cs = [] \<or> \<not> is_blank (hd cs) \<Longrightarrow>
     sub_runs is_blank 2 [SPC] cs = [] \<or> \<not> is_blank (hd (sub_runs is_blank 2 [SPC] cs))"
  by (cases cs) auto

lemma dropWhile_hd_not: "dropWhile P xs = [] \<or> \<not> P (hd (dropWhile P xs))"
  using hd_dropWhile [of P xs] by blast

lemma collapse_successively:
  "successively (\<lambda>x y. \<not> (is_blank x \<and> is_blank y)) (sub_runs is_blank 2 [SPC] l)"
proof (induction l rule: length_induct)
  case (1 l)
  let ?R = "\<lambda>x y. \<not> (is_blank x \<and> is_blank y)"
  let ?cb = "sub_runs is_blank 2 [SPC]"
  show ?case
  proof (cases l)
    case Nil
    then show ?thesis by simp
  next
    case (Cons c cs)
    show ?thesis
    proof (cases "is_blank c \<and> 2 \<le> length (takeWhile is_blank (c # cs))")
      case True
      let ?rest = "dropWhile is_blank cs"
      have e: "?cb l = SPC # ?cb ?rest"
        unfolding Cons using sub_runs_run [OF True] by simp
      have "length ?rest \<le> length cs" by (rule length_dropWhile_le)
      then have "length ?rest < length l" using Cons by simp
      with 1 have ih: "successively ?R (?cb ?rest)" by blast
      have "?cb ?rest = [] \<or> \<not> is_blank (hd (?cb ?rest))"
        using dropWhile_hd_not [of is_blank cs] by (rule collapse_hd_not)
      with ih show ?thesis unfolding e by (auto simp: successively_Cons)
    next
      case False
      have e: "?cb l = c # ?cb cs"
        unfolding Cons by (rule sub_runs_skip [OF False])
      have "length cs < length l" using Cons by simp
      with 1 have ih: "successively ?R (?cb cs)" by blast
      have "?cb cs = [] \<or> \<not> (is_blank c \<and> is_blank (hd (?cb cs)))"
      proof (cases "is_blank c")
        case True
        with False have "cs = [] \<or> \<not> is_blank (hd cs)" unfolding two_run by auto
        then show ?thesis using collapse_hd_not [of cs] by blast
      next
        case False
        then show ?thesis by simp
      qed
      with ih show ?thesis unfolding e by (auto simp: successively_Cons)
    qed
  qed
qed

lemma collapse_last:
  "l \<noteq> [] \<Longrightarrow> \<not> is_blank (last l) \<Longrightarrow>
     sub_runs is_blank 2 [SPC] l \<noteq> [] \<and> last (sub_runs is_blank 2 [SPC] l) = last l"
proof (induction l rule: length_induct)
  case (1 l)
  let ?cb = "sub_runs is_blank 2 [SPC]"
  from 1(2) obtain c cs where Cons: "l = c # cs" by (cases l) auto
  show ?case
  proof (cases "is_blank c \<and> 2 \<le> length (takeWhile is_blank (c # cs))")
    case True
    let ?rest = "dropWhile is_blank cs"
    have e: "?cb l = SPC # ?cb ?rest"
      unfolding Cons using sub_runs_run [OF True] by simp
    have ne: "?rest \<noteq> []"
    proof
      assume "?rest = []"
      then have "\<forall>x\<in>set cs. is_blank x" by (simp add: dropWhile_eq_Nil_conv)
      with True have "\<forall>x\<in>set l. is_blank x" using Cons by simp
      moreover have "last l \<in> set l" using 1(2) by simp
      ultimately show False using 1(3) by blast
    qed
    have "last (takeWhile is_blank cs @ ?rest) = last ?rest" using ne by (rule last_appendR)
    then have lc: "last cs = last ?rest" by (simp only: takeWhile_dropWhile_id)
    have "cs \<noteq> []" using ne by auto
    with lc have la: "last l = last ?rest" using Cons by simp
    have "length ?rest \<le> length cs" by (rule length_dropWhile_le)
    then have len: "length ?rest < length l" using Cons by simp
    have nb: "\<not> is_blank (last ?rest)" using 1(3) la by simp
    from 1(1) [rule_format, OF len ne nb]
    have "?cb ?rest \<noteq> [] \<and> last (?cb ?rest) = last ?rest" .
    then show ?thesis unfolding e using la by simp
  next
    case False
    have e: "?cb l = c # ?cb cs"
      unfolding Cons by (rule sub_runs_skip [OF False])
    show ?thesis
    proof (cases cs)
      case Nil
      then show ?thesis unfolding e using Cons by simp
    next
      case (Cons d ds)
      then have la: "last l = last cs" and ne: "cs \<noteq> []" using \<open>l = c # cs\<close> by auto
      have len: "length cs < length l" using \<open>l = c # cs\<close> by simp
      have nb: "\<not> is_blank (last cs)" using 1(3) la by simp
      from 1(1) [rule_format, OF len ne nb]
      have "?cb cs \<noteq> [] \<and> last (?cb cs) = last cs" .
      then show ?thesis unfolding e using la by simp
    qed
  qed
qed

subsection \<open>One line\<close>

lemma is_blank_space: "is_blank c \<Longrightarrow> is_space c"
  by (auto simp: is_blank_def is_space_def)

lemma NL_facts: "is_space NL" "\<not> is_blank NL" "CR \<noteq> NL"
  by (simp_all add: is_space_def is_blank_def)

lemma tidy_NL: "tidy NL y"
  by (simp add: tidy_def NL_facts)

lemma tidy_before_NL: "\<not> is_space x \<Longrightarrow> tidy x NL"
  by (simp add: tidy_def NL_facts)

lemma set_rstrip: "set (rstrip l) \<subseteq> set l"
  by (auto simp: rstrip_def dest: set_dropWhileD)

lemma set_lstrip: "set (lstrip l) \<subseteq> set l"
  by (auto simp: lstrip_def dest: set_dropWhileD)

lemma set_strip: "set (strip l) \<subseteq> set l"
  using set_rstrip [of "lstrip l"] set_lstrip [of l] by (auto simp: strip_def)

lemma clean_line_fixed:
  assumes "successively (\<lambda>x y. \<not> (is_blank x \<and> is_blank y)) l"
    and "l = [] \<or> \<not> is_space (last l)"
  shows "clean_line l = l"
proof -
  have "rstrip l = l" using assms(2) by (rule rstrip_id)
  then show ?thesis using collapse_fixed [OF assms(1)] by (simp add: clean_line_def)
qed

lemma clean_line_successively:
  "successively (\<lambda>x y. \<not> (is_blank x \<and> is_blank y)) (clean_line l)"
  unfolding clean_line_def by (rule collapse_successively)

lemma clean_line_last: "clean_line l = [] \<or> \<not> is_space (last (clean_line l))"
proof (cases "rstrip l = []")
  case True
  then show ?thesis by (simp add: clean_line_def)
next
  case False
  then have n: "\<not> is_space (last (rstrip l))" by (rule rstrip_last)
  then have "\<not> is_blank (last (rstrip l))" using is_blank_space by blast
  from collapse_last [OF False this] n show ?thesis by (simp add: clean_line_def)
qed

lemma clean_line_set: "set (clean_line l) \<subseteq> set l \<union> {SPC}"
proof -
  have "set (clean_line l) \<subseteq> set (rstrip l) \<union> set [SPC]"
    unfolding clean_line_def by (rule sub_runs_set)
  with set_rstrip [of l] show ?thesis by auto
qed

lemma clean_line_tidy:
  assumes "NL \<notin> set l"
  shows "successively tidy (clean_line l)"
proof (rule successively_mono [OF clean_line_successively])
  fix x y assume "x \<in> set (clean_line l)" and y: "y \<in> set (clean_line l)"
    and b: "\<not> (is_blank x \<and> is_blank y)"
  from y clean_line_set [of l] assms have "y \<noteq> NL" by auto
  with b show "tidy x y" by (simp add: tidy_def)
qed

subsection \<open>All lines\<close>

lemma lines_more:
  assumes "NL \<notin> set l"
  shows "join [NL] (map clean_line (split_chr NL (l @ NL # r)))
           = clean_line l @ NL # join [NL] (map clean_line (split_chr NL r))"
proof -
  have "map clean_line (split_chr NL r) \<noteq> []" by (simp add: split_chr_ne)
  then have "join [NL] (clean_line l # map clean_line (split_chr NL r))
      = clean_line l @ [NL] @ join [NL] (map clean_line (split_chr NL r))"
    by (rule join_Cons)
  then show ?thesis using split_chr_line [OF assms, of r] by simp
qed

lemma lines_line:
  assumes "NL \<notin> set l"
  shows "join [NL] (map clean_line (split_chr NL l)) = clean_line l"
  using split_chr_no_sep [OF assms] by simp

lemma tidy_blank_free:
  "successively tidy l \<Longrightarrow> successively (\<lambda>x y. \<not> (is_blank x \<and> is_blank y)) l"
  by (erule successively_mono) (simp add: tidy_def)

lemma lines_fixed:
  "successively tidy v \<Longrightarrow> v = [] \<or> \<not> is_space (last v) \<or> last v = NL \<Longrightarrow>
     join [NL] (map clean_line (split_chr NL v)) = v"
proof (induction v rule: line_induct [where d = NL])
  case (line l)
  have "l = [] \<or> \<not> is_space (last l)"
  proof (cases "l = []")
    case True then show ?thesis by simp
  next
    case False
    have "last l \<noteq> NL" using line(1) last_in_set [OF False] by metis
    with line(3) False show ?thesis by simp
  qed
  with tidy_blank_free [OF line(2)] have "clean_line l = l" by (rule clean_line_fixed)
  then show ?case using lines_line [OF line(1)] by simp
next
  case (more l r)
  from more(3) have tl: "successively tidy l" and tr: "successively tidy (NL # r)"
    and j: "l = [] \<or> tidy (last l) NL"
    by (auto simp: successively_append_iff)
  from tr have r: "successively tidy r" by (auto simp: successively_Cons)
  have er: "r = [] \<or> \<not> is_space (last r) \<or> last r = NL"
    using more(4) by (cases "r = []") auto
  have "l = [] \<or> \<not> is_space (last l)"
  proof (cases "l = []")
    case True then show ?thesis by simp
  next
    case False
    with j have "tidy (last l) NL" by simp
    moreover have "last l \<noteq> NL" using more(1) last_in_set [OF False] by metis
    ultimately show ?thesis by (simp add: tidy_def)
  qed
  with tidy_blank_free [OF tl] have "clean_line l = l" by (rule clean_line_fixed)
  with more(2) [OF r er] show ?case using lines_more [OF more(1), of r] by simp
qed

lemma lines_tidy: "successively tidy (join [NL] (map clean_line (split_chr NL v)))"
proof (induction v rule: line_induct [where d = NL])
  case (line l)
  then show ?case using lines_line [of l] clean_line_tidy [of l] by simp
next
  case (more l r)
  let ?y = "join [NL] (map clean_line (split_chr NL r))"
  have a: "successively tidy (clean_line l)" using more(1) by (rule clean_line_tidy)
  have b: "successively tidy (NL # ?y)"
    using more(2) tidy_NL by (auto simp: successively_Cons)
  have c: "clean_line l = [] \<or> tidy (last (clean_line l)) NL"
    using clean_line_last [of l] tidy_before_NL by blast
  have "successively tidy (clean_line l @ NL # ?y)"
    unfolding successively_append_iff using a b c by simp
  then show ?case using lines_more [OF more(1), of r] by simp
qed

lemma lines_set: "set (join [NL] (map clean_line (split_chr NL v))) \<subseteq> set v \<union> {SPC, NL}"
proof (induction v rule: line_induct [where d = NL])
  case (line l)
  then show ?case using lines_line [of l] clean_line_set [of l] by auto
next
  case (more l r)
  then show ?case using lines_more [OF more(1), of r] clean_line_set [of l] by auto
qed

subsection \<open>Runs of newlines\<close>

lemma nl_collapse_hd:
  assumes "s \<noteq> []"
  shows "sub_runs (\<lambda>c. c = NL) 3 [NL, NL] s \<noteq> []
         \<and> hd (sub_runs (\<lambda>c. c = NL) 3 [NL, NL] s) = hd s"
proof -
  from assms obtain c cs where s: "s = c # cs" by (cases s) auto
  show ?thesis
  proof (cases "c = NL \<and> 3 \<le> length (takeWhile (\<lambda>c. c = NL) (c # cs))")
    case True
    from sub_runs_run [of "\<lambda>c. c = NL" c 3 cs "[NL, NL]"] True
    have "sub_runs (\<lambda>c. c = NL) 3 [NL, NL] (c # cs)
        = [NL, NL] @ sub_runs (\<lambda>c. c = NL) 3 [NL, NL] (dropWhile (\<lambda>c. c = NL) cs)" by blast
    then show ?thesis unfolding s using True by simp
  next
    case False
    from sub_runs_skip [of "\<lambda>c. c = NL" c 3 cs "[NL, NL]"] False
    have "sub_runs (\<lambda>c. c = NL) 3 [NL, NL] (c # cs)
        = c # sub_runs (\<lambda>c. c = NL) 3 [NL, NL] cs" by blast
    then show ?thesis unfolding s by simp
  qed
qed

lemma three_run:
  assumes "3 \<le> length (takeWhile (\<lambda>x. x = NL) s)"
  shows "\<exists>b. s = NL # NL # NL # b"
proof -
  let ?t = "takeWhile (\<lambda>x. x = NL) s" and ?d = "dropWhile (\<lambda>x. x = NL) s"
  from assms obtain x y z t where t: "?t = x # y # z # t"
    by (auto simp: Suc_le_length_iff numeral_3_eq_3)
  have "\<forall>u\<in>set ?t. u = NL" by (auto dest: set_takeWhileD)
  then have "x = NL" "y = NL" "z = NL" unfolding t by auto
  moreover have "?t @ ?d = s" by (rule takeWhile_dropWhile_id)
  ultimately have "NL # NL # NL # (t @ ?d) = s" unfolding t by simp
  then show ?thesis by metis
qed

lemma no3_Cons:
  "no3 (c # z) \<longleftrightarrow> no3 z \<and> \<not> (c = NL \<and> (\<exists>b. z = NL # NL # b))"
proof -
  have "(\<exists>a b. c # z = a @ [NL, NL, NL] @ b)
      \<longleftrightarrow> (\<exists>a b. z = a @ [NL, NL, NL] @ b) \<or> (c = NL \<and> (\<exists>b. z = NL # NL # b))"
  proof
    assume "\<exists>a b. c # z = a @ [NL, NL, NL] @ b"
    then obtain a b where e: "c # z = a @ [NL, NL, NL] @ b" by blast
    show "(\<exists>a b. z = a @ [NL, NL, NL] @ b) \<or> (c = NL \<and> (\<exists>b. z = NL # NL # b))"
    proof (cases a)
      case Nil
      with e show ?thesis by simp
    next
      case (Cons a0 a')
      with e have "z = a' @ [NL, NL, NL] @ b" by simp
      then show ?thesis by blast
    qed
  next
    assume "(\<exists>a b. z = a @ [NL, NL, NL] @ b) \<or> (c = NL \<and> (\<exists>b. z = NL # NL # b))"
    then show "\<exists>a b. c # z = a @ [NL, NL, NL] @ b"
    proof
      assume "\<exists>a b. z = a @ [NL, NL, NL] @ b"
      then obtain a b where "z = a @ [NL, NL, NL] @ b" by blast
      then have "c # z = (c # a) @ [NL, NL, NL] @ b" by simp
      then show ?thesis by blast
    next
      assume "c = NL \<and> (\<exists>b. z = NL # NL # b)"
      then obtain b where "c # z = [] @ [NL, NL, NL] @ b" by auto
      then show ?thesis by blast
    qed
  qed
  then show ?thesis unfolding no3_def by blast
qed

lemma no3_Nil: "no3 []"
  by (simp add: no3_def)

lemma no3_two:
  assumes "z = [] \<or> hd z \<noteq> NL" and "no3 z"
  shows "no3 (NL # NL # z)"
proof -
  have a: "\<not> (\<exists>b. z = NL # NL # b)" using assms(1) by auto
  have b: "\<not> (\<exists>b. NL # z = NL # NL # b)" using assms(1) by auto
  from a assms(2) have "no3 (NL # z)" unfolding no3_Cons [of NL z] by blast
  with b show ?thesis unfolding no3_Cons [of NL "NL # z"] by blast
qed

lemma nl_collapse_two:
  assumes "sub_runs (\<lambda>c. c = NL) 3 [NL, NL] s = NL # NL # b"
  shows "\<exists>b'. s = NL # NL # b'"
proof -
  from assms obtain c cs where s: "s = c # cs" by (cases s) auto
  show ?thesis
  proof (cases "c = NL \<and> 3 \<le> length (takeWhile (\<lambda>c. c = NL) (c # cs))")
    case True
    then have "3 \<le> length (takeWhile (\<lambda>x. x = NL) (c # cs))" by blast
    then have "\<exists>b. c # cs = NL # NL # NL # b" by (rule three_run)
    then show ?thesis unfolding s by blast
  next
    case False
    from sub_runs_skip [of "\<lambda>c. c = NL" c 3 cs "[NL, NL]"] False
    have "sub_runs (\<lambda>c. c = NL) 3 [NL, NL] (c # cs)
        = c # sub_runs (\<lambda>c. c = NL) 3 [NL, NL] cs" by blast
    with assms s have c: "c = NL" and g: "sub_runs (\<lambda>c. c = NL) 3 [NL, NL] cs = NL # b"
      by auto
    from g have n: "cs \<noteq> []" by auto
    from nl_collapse_hd [OF n] g have "hd cs = NL" by simp
    with n obtain cs' where "cs = NL # cs'" by (cases cs) auto
    with c s show ?thesis by blast
  qed
qed

lemma nl_collapse_no3: "no3 (sub_runs (\<lambda>c. c = NL) 3 [NL, NL] s)"
proof (induction s rule: length_induct)
  case (1 s)
  let ?g = "sub_runs (\<lambda>c. c = NL) 3 [NL, NL]"
  show ?case
  proof (cases s)
    case Nil
    then show ?thesis by (simp add: no3_Nil)
  next
    case (Cons c cs)
    show ?thesis
    proof (cases "c = NL \<and> 3 \<le> length (takeWhile (\<lambda>c. c = NL) (c # cs))")
      case True
      let ?rest = "dropWhile (\<lambda>c. c = NL) cs"
      from sub_runs_run [of "\<lambda>c. c = NL" c 3 cs "[NL, NL]"] True
      have "?g (c # cs) = [NL, NL] @ ?g ?rest" by blast
      then have e: "?g (c # cs) = NL # NL # ?g ?rest"
        by (simp only: append_Cons append_Nil)
      have "length ?rest \<le> length cs" by (rule length_dropWhile_le)
      then have "length ?rest < length s" using Cons by simp
      with 1 have ih: "no3 (?g ?rest)" by blast
      have "?g ?rest = [] \<or> hd (?g ?rest) \<noteq> NL"
      proof (cases "?rest = []")
        case True
        then show ?thesis by (simp only: sub_runs.simps(1) simp_thms)
      next
        case False
        then have "hd ?rest \<noteq> NL" using hd_dropWhile [of "\<lambda>c. c = NL" cs] by blast
        with nl_collapse_hd [OF False] show ?thesis by simp
      qed
      then have "no3 (NL # NL # ?g ?rest)" using ih by (rule no3_two)
      then show ?thesis unfolding Cons e .
    next
      case False
      from sub_runs_skip [of "\<lambda>c. c = NL" c 3 cs "[NL, NL]"] False
      have e: "?g (c # cs) = c # ?g cs" by blast
      have "length cs < length s" using Cons by simp
      with 1 have ih: "no3 (?g cs)" by blast
      have "\<not> (c = NL \<and> (\<exists>b. ?g cs = NL # NL # b))"
      proof
        assume a: "c = NL \<and> (\<exists>b. ?g cs = NL # NL # b)"
        then obtain b where "?g cs = NL # NL # b" by blast
        then obtain b' where "cs = NL # NL # b'" using nl_collapse_two by blast
        with a have "c = NL \<and> 3 \<le> length (takeWhile (\<lambda>c. c = NL) (c # cs))" by auto
        with False show False by blast
      qed
      with ih have "no3 (c # ?g cs)" unfolding no3_Cons [of c "?g cs"] by blast
      then show ?thesis unfolding Cons e .
    qed
  qed
qed

lemma nl_collapse_fixed: "no3 s \<Longrightarrow> sub_runs (\<lambda>c. c = NL) 3 [NL, NL] s = s"
proof (induction s)
  case Nil
  show ?case by simp
next
  case (Cons c cs)
  from Cons.prems have n: "no3 cs" and h: "\<not> (c = NL \<and> (\<exists>b. cs = NL # NL # b))"
    unfolding no3_Cons [of c cs] by blast+
  have f: "\<not> (c = NL \<and> 3 \<le> length (takeWhile (\<lambda>c. c = NL) (c # cs)))"
  proof
    assume a: "c = NL \<and> 3 \<le> length (takeWhile (\<lambda>c. c = NL) (c # cs))"
    then have "3 \<le> length (takeWhile (\<lambda>x. x = NL) (c # cs))" by blast
    then have "\<exists>b. c # cs = NL # NL # NL # b" by (rule three_run)
    with a h show False by blast
  qed
  from sub_runs_skip [of "\<lambda>c. c = NL" c 3 cs "[NL, NL]"] f
  have "sub_runs (\<lambda>c. c = NL) 3 [NL, NL] (c # cs)
      = c # sub_runs (\<lambda>c. c = NL) 3 [NL, NL] cs" by blast
  with Cons.IH [OF n] show ?case by simp
qed

lemma nl_collapse_tidy:
  "successively tidy s \<Longrightarrow> successively tidy (sub_runs (\<lambda>c. c = NL) 3 [NL, NL] s)"
proof (induction s rule: length_induct)
  case (1 s)
  let ?g = "sub_runs (\<lambda>c. c = NL) 3 [NL, NL]"
  show ?case
  proof (cases s)
    case Nil
    then show ?thesis by simp
  next
    case (Cons c cs)
    from 1(2) Cons have sc: "successively tidy cs" and hc: "cs = [] \<or> tidy c (hd cs)"
      by (auto simp: successively_Cons)
    show ?thesis
    proof (cases "c = NL \<and> 3 \<le> length (takeWhile (\<lambda>c. c = NL) (c # cs))")
      case True
      let ?rest = "dropWhile (\<lambda>c. c = NL) cs"
      from sub_runs_run [of "\<lambda>c. c = NL" c 3 cs "[NL, NL]"] True
      have "?g (c # cs) = [NL, NL] @ ?g ?rest" by blast
      then have e: "?g (c # cs) = NL # NL # ?g ?rest"
        by (simp only: append_Cons append_Nil)
      have "successively tidy (takeWhile (\<lambda>c. c = NL) cs @ ?rest)"
        using sc by (simp only: takeWhile_dropWhile_id)
      then have sr: "successively tidy ?rest" unfolding successively_append_iff by blast
      have "length ?rest \<le> length cs" by (rule length_dropWhile_le)
      then have len: "length ?rest < length s" using Cons by simp
      from 1(1) [rule_format, OF len sr] have "successively tidy (?g ?rest)" .
      then have "successively tidy (NL # NL # ?g ?rest)"
        by (simp add: successively_Cons tidy_NL)
      then show ?thesis unfolding Cons e .
    next
      case False
      from sub_runs_skip [of "\<lambda>c. c = NL" c 3 cs "[NL, NL]"] False
      have e: "?g (c # cs) = c # ?g cs" by blast
      have len: "length cs < length s" using Cons by simp
      from 1(1) [rule_format, OF len sc] have ih: "successively tidy (?g cs)" .
      have "?g cs = [] \<or> tidy c (hd (?g cs))"
      proof (cases "cs = []")
        case True
        then show ?thesis by simp
      next
        case False
        with hc nl_collapse_hd [OF False] show ?thesis by simp
      qed
      with ih have "successively tidy (c # ?g cs)" by (simp add: successively_Cons)
      then show ?thesis unfolding Cons e .
    qed
  qed
qed

subsection \<open>The normal form of a cleaned text\<close>

lemma no3_sublist: "no3 (p @ s @ q) \<Longrightarrow> no3 s"
proof (rule ccontr)
  assume n: "no3 (p @ s @ q)" and "\<not> no3 s"
  then obtain a b where "s = a @ [NL, NL, NL] @ b" unfolding no3_def by blast
  then have "p @ s @ q = (p @ a) @ [NL, NL, NL] @ (b @ q)" by simp
  with n show False unfolding no3_def by blast
qed

lemma no3_snoc:
  assumes "no3 s" and "s = [] \<or> last s \<noteq> NL"
  shows "no3 (s @ [NL])"
proof (rule ccontr)
  assume "\<not> no3 (s @ [NL])"
  then obtain a b where e: "s @ [NL] = a @ [NL, NL, NL] @ b" unfolding no3_def by blast
  show False
  proof (cases b rule: rev_cases)
    case Nil
    with e have "s @ [NL] = (a @ [NL, NL]) @ [NL]" by simp
    then have "s = a @ [NL, NL]" by (simp only: append1_eq_conv)
    with assms(2) show False by simp
  next
    case (snoc b' x)
    with e have "s @ [NL] = (a @ [NL, NL, NL] @ b') @ [x]" by simp
    then have "s = a @ [NL, NL, NL] @ b'" by (simp only: append1_eq_conv)
    with assms(1) show False unfolding no3_def by blast
  qed
qed

lemma strip_sublist: "\<exists>p q. x = p @ strip x @ q"
proof -
  have b: "rstrip (lstrip x) @ rev (takeWhile is_space (rev (lstrip x))) = lstrip x"
    by (rule rstrip_prefix [symmetric])
  have a: "takeWhile is_space x @ lstrip x = x" by (simp add: lstrip_def)
  have "takeWhile is_space x @ strip x @ rev (takeWhile is_space (rev (lstrip x))) = x"
    unfolding strip_def b a by (rule refl)
  then show ?thesis by metis
qed

lemma strip_snoc_NL:
  assumes "s = [] \<or> (\<not> is_space (hd s) \<and> \<not> is_space (last s))"
  shows "strip (s @ [NL]) = s"
proof (cases "s = []")
  case True
  then show ?thesis by (simp add: strip_def lstrip_def rstrip_def NL_facts)
next
  case False
  with assms have h: "\<not> is_space (hd s)" and l: "\<not> is_space (last s)" by blast+
  have "hd (s @ [NL]) = hd s" using False by simp
  with h have "lstrip (s @ [NL]) = s @ [NL]" by (intro lstrip_id) simp
  moreover have "rstrip (s @ [NL]) = rstrip s" by (simp add: rstrip_def NL_facts)
  moreover have "rstrip s = s" using l by (intro rstrip_id) simp
  ultimately show ?thesis by (simp add: strip_def)
qed

lemma clean_line_comp: "clean_line = sub_runs is_blank 2 [SPC] \<circ> rstrip"
  by (rule ext) (simp add: clean_line_def)

lemma clean_whitespace_alt:
  "clean_whitespace t
     = strip (sub_runs (\<lambda>c. c = NL) 3 [NL, NL]
         (join [NL] (map clean_line (split_chr NL (replace_cr (replace_crlf t)))))) @ [NL]"
  by (simp only: clean_whitespace_def Let_def clean_line_comp map_map)

lemma normal_fixed:
  assumes A: "CR \<notin> set s" and T: "successively tidy s" and N: "no3 s"
    and E: "s = [] \<or> (\<not> is_space (hd s) \<and> \<not> is_space (last s))"
  shows "clean_whitespace (s @ [NL]) = s @ [NL]"
proof -
  let ?v = "s @ [NL]"
  have c: "CR \<notin> set ?v" using A NL_facts(3) by simp
  have r: "replace_cr (replace_crlf ?v) = ?v"
    unfolding replace_crlf_id [OF c] by (rule replace_cr_id [OF c])
  have "s = [] \<or> tidy (last s) NL" using E tidy_before_NL by blast
  then have tv: "successively tidy ?v"
    unfolding successively_append_iff using T by simp
  have "?v = [] \<or> \<not> is_space (last ?v) \<or> last ?v = NL" by simp
  with tv have j: "join [NL] (map clean_line (split_chr NL ?v)) = ?v" by (rule lines_fixed)
  have "s = [] \<or> last s \<noteq> NL" using E NL_facts(1) by metis
  with N have "no3 ?v" by (rule no3_snoc)
  then have g: "sub_runs (\<lambda>c. c = NL) 3 [NL, NL] ?v = ?v" by (rule nl_collapse_fixed)
  have st: "strip ?v = s" using E by (rule strip_snoc_NL)
  show ?thesis unfolding clean_whitespace_alt r j g st by (rule refl)
qed

lemma cleaned_normal:
  fixes t :: string
  defines "x \<equiv> sub_runs (\<lambda>c. c = NL) 3 [NL, NL]
         (join [NL] (map clean_line (split_chr NL (replace_cr (replace_crlf t)))))"
  shows "CR \<notin> set (strip x)" and "successively tidy (strip x)" and "no3 (strip x)"
proof -
  let ?y = "join [NL] (map clean_line (split_chr NL (replace_cr (replace_crlf t))))"
  have "set x \<subseteq> set ?y \<union> set [NL, NL]" unfolding x_def by (rule sub_runs_set)
  moreover have "set ?y \<subseteq> set (replace_cr (replace_crlf t)) \<union> {SPC, NL}" by (rule lines_set)
  moreover have "CR \<notin> set (replace_cr (replace_crlf t))" by (rule replace_cr_no_cr)
  ultimately have "CR \<notin> set x" by auto
  then show "CR \<notin> set (strip x)" using set_strip [of x] by blast
  obtain p q where d: "x = p @ strip x @ q" using strip_sublist by blast
  have "successively tidy x" unfolding x_def by (rule nl_collapse_tidy [OF lines_tidy])
  then have "successively tidy (p @ strip x @ q)" using d by metis
  then show "successively tidy (strip x)" unfolding successively_append_iff by blast
  have "no3 x" unfolding x_def by (rule nl_collapse_no3)
  then have "no3 (p @ strip x @ q)" using d by metis
  then show "no3 (strip x)" by (rule no3_sublist)
qed

text \<open>
  Claim C6. For every text \<open>t\<close>, \<open>clean_whitespace\<close> applied to its own output returns
  that output: the output has no carriage return, no two neighbouring blanks, no
  whitespace before a newline, no three newlines in a row and no whitespace at its ends
  but the final newline, and every step of \<open>clean_whitespace\<close> leaves such a text as it
  is.
\<close>

theorem clean_whitespace_idempotent:
  "clean_whitespace (clean_whitespace t) = clean_whitespace t"
proof -
  let ?x = "sub_runs (\<lambda>c. c = NL) 3 [NL, NL]
         (join [NL] (map clean_line (split_chr NL (replace_cr (replace_crlf t)))))"
  have e: "clean_whitespace t = strip ?x @ [NL]" by (rule clean_whitespace_alt)
  have "clean_whitespace (strip ?x @ [NL]) = strip ?x @ [NL]"
    using cleaned_normal [of t] strip_ends [of ?x] by (rule normal_fixed)
  then show ?thesis unfolding e .
qed

end
